theory Spec2Isabelle
  imports Main "HOL-Library.Word"
begin

unbundle bit_operations_syntax

chapter \<open>kaizen-dedup-fix: message deduplication and the stopped-agent guard\<close>

section \<open>Common conventions\<close>

text \<open>
  A value of type \<open>error\<close> is what JavaScript code throws or what a promise is
  rejected with.  That is any value: an \<open>Error\<close> object of one of the classes met
  here, with its message; \<open>undefined\<close> or \<open>null\<close>; or some other value, of which
  the code reads the property \<open>message\<close> only (\<open>Thrown m\<close>, where \<open>m\<close> is that
  property as it prints, \<open>None\<close> when it is \<open>undefined\<close>; the property is a data
  property, its read does not run code).  A function that can throw returns a sum,
  with \<open>Inl\<close> for the exception.

  Strings that the code only concatenates and compares are \<open>string\<close>s: texts as
  their UTF-8 bytes.  A JavaScript string is taken to be well formed (no lone
  surrogate), so that it is one text for the code and for the store.  The one non-ASCII
  character of the source texts, the em dash, is written as its three bytes.
\<close>

datatype error =
    Error string
  | RangeError string
  | TypeError string
  | Undefined
  | Null
  | Thrown "string option"

text \<open>
  \<open>(err as Error).message\<close>: the property of an object, and a \<open>TypeError\<close> when
  \<open>err\<close> is \<open>undefined\<close> or \<open>null\<close> (with the message of Node.js).
  \<open>err?.message\<close> is \<open>undefined\<close> there.
\<close>

definition cannot_read :: "string \<Rightarrow> string" where
  "cannot_read v =
     ''Cannot read properties of '' @ v @ '' (reading '' @ [CHR 0x27] @ ''message'' @
     [CHR 0x27] @ '')''"

fun message_of :: "error \<Rightarrow> error + string option" where
  "message_of (Error m) = Inr (Some m)"
| "message_of (RangeError m) = Inr (Some m)"
| "message_of (TypeError m) = Inr (Some m)"
| "message_of Undefined = Inl (TypeError (cannot_read ''undefined''))"
| "message_of Null = Inl (TypeError (cannot_read ''null''))"
| "message_of (Thrown m) = Inr m"

definition optional_message :: "error \<Rightarrow> string option" where
  "optional_message err = (case message_of err of Inl e \<Rightarrow> None | Inr m \<Rightarrow> m)"

text \<open>A value in a template literal or on the console: \<open>undefined\<close> prints as such.\<close>

definition printed :: "string option \<Rightarrow> string" where
  "printed m = (case m of None \<Rightarrow> ''undefined'' | Some t \<Rightarrow> t)"

definition em_dash :: string where
  "em_dash = [char_of (0xE2 :: nat), char_of (0x80 :: nat), char_of (0x94 :: nat)]"

section \<open>stopped-agent-guard.ts\<close>

subsection \<open>Types\<close>

text \<open>
  \<open>AgentLight.status\<close> is the union of five string literals; \<open>status_str\<close> gives the
  literal back where the code uses the status as a string.
\<close>

datatype agent_status = Idle | Thinking | Executing | Errored | Stopped

fun status_str :: "agent_status \<Rightarrow> string" where
  "status_str Idle = ''idle''"
| "status_str Thinking = ''thinking''"
| "status_str Executing = ''executing''"
| "status_str Errored = ''error''"
| "status_str Stopped = ''stopped''"

record AgentLight =
  id' :: string
  name :: string
  role :: string
  status :: agent_status
  lastActiveAt :: "string option"

record activity =
  act_agentId :: string
  act_type :: string
  act_summary :: string
  act_details :: "(string \<times> string) list"

record ReconcileResult =
  reset :: "string list"
  skipped :: "string list"

subsection \<open>The host: injected callbacks and what they are called with\<close>

text \<open>
  The guards receive their collaborators as callbacks.  A callback acts on an abstract
  world \<open>'w\<close>: it resolves to a value or rejects, and leaves the world as it made it
  in either case.  The host state keeps the world, the calls made to the callbacks in
  order, and the lines written by \<open>console.log\<close> (one constructor per call site,
  carrying the interpolated values).  A guard runs alone: between two of its awaits
  nothing else changes the world.
\<close>

type_synonym ('w, 'a) callback = "'w \<Rightarrow> (error + 'a) \<times> 'w"

datatype call =
    UpdateAgentStatus string string
  | InsertActivity activity
  | GetAgent string
  | StartAgent string

datatype guard_log =
    FilteredStopped nat "(string \<times> string) list"
  | SkippingStopped string string
  | ReconcileComplete nat nat

record 'w host =
  world :: 'w
  calls :: "call list"
  guard_console :: "guard_log list"

definition called :: "call \<Rightarrow> 'w host \<Rightarrow> 'w host" where
  "called c h = h\<lparr>calls := calls h @ [c]\<rparr>"

definition console_log :: "guard_log \<Rightarrow> 'w host \<Rightarrow> 'w host" where
  "console_log l h = h\<lparr>guard_console := guard_console h @ [l]\<rparr>"

text \<open>
  \<open>await cb(args)\<close>: the call is recorded and the callback runs on the world; a
  rejection is thrown on, a value is handed to the rest of the function.
\<close>

definition await_call ::
  "call \<Rightarrow> ('w, 'a) callback \<Rightarrow> 'w host \<Rightarrow> (error \<times> 'w host) + ('a \<times> 'w host)" where
  "await_call c cb h =
     (case cb (world h) of
        (Inl err, w') \<Rightarrow> Inl (err, (called c h)\<lparr>world := w'\<rparr>)
      | (Inr v, w') \<Rightarrow> Inr (v, (called c h)\<lparr>world := w'\<rparr>))"

subsection \<open>Guard 1: filterDispatchableAgents\<close>

definition filterDispatchableAgents ::
  "AgentLight list \<Rightarrow> 'w host \<Rightarrow> AgentLight list \<times> 'w host" where
  "filterDispatchableAgents agents h =
     (let filtered = filter (\<lambda>a. status a \<noteq> Stopped) agents;
          removedCount = length agents - length filtered
      in if removedCount > 0
         then (filtered,
               console_log (FilteredStopped removedCount
                 (map (\<lambda>a. (name a, id' a)) (filter (\<lambda>a. status a = Stopped) agents))) h)
         else (filtered, h))"

subsection \<open>Guard 2: safeReconcileOnStartup\<close>

definition staleStatuses :: "string set" where
  "staleStatuses = {''thinking'', ''executing''}"

definition reconcile_activity :: "AgentLight \<Rightarrow> activity" where
  "reconcile_activity agent =
     \<lparr> act_agentId = id' agent,
       act_type = ''agent_stopped'',
       act_summary = name agent @ '' state reconciled after restart ('' @
                 status_str (status agent) @ '' -> idle)'',
       act_details = [(''source'', ''startup_reconcile''),
                  (''previousStatus'', status_str (status agent)),
                  (''guardVersion'', ''stopped-agent-guard-v1'')] \<rparr>"

text \<open>
  The \<open>for\<close> loop over the agents.  The accumulator is the result built so far and
  the host; a rejected callback ends the loop with the exception (the function's
  promise rejects and no result is returned).
\<close>

fun reconcile_loop ::
  "(string \<Rightarrow> string \<Rightarrow> ('w, unit) callback) \<Rightarrow> (activity \<Rightarrow> ('w, unit) callback) \<Rightarrow>
   AgentLight list \<Rightarrow> ReconcileResult \<Rightarrow> 'w host \<Rightarrow>
   (error \<times> 'w host) + (ReconcileResult \<times> 'w host)" where
  "reconcile_loop updateAgentStatus insertActivity [] result h = Inr (result, h)"
| "reconcile_loop updateAgentStatus insertActivity (agent # rest) result h =
     (if status agent = Stopped then
        reconcile_loop updateAgentStatus insertActivity rest
          (result\<lparr>skipped := skipped result @ [id' agent]\<rparr>)
          (console_log (SkippingStopped (name agent) (id' agent)) h)
      else if status_str (status agent) \<notin> staleStatuses then
        reconcile_loop updateAgentStatus insertActivity rest result h
      else
        (case await_call (UpdateAgentStatus (id' agent) ''idle'')
                (updateAgentStatus (id' agent) ''idle'') h of
           Inl err \<Rightarrow> Inl err
         | Inr (u1, h1) \<Rightarrow>
             (case await_call (InsertActivity (reconcile_activity agent))
                     (insertActivity (reconcile_activity agent)) h1 of
                Inl err \<Rightarrow> Inl err
              | Inr (u2, h2) \<Rightarrow>
                  reconcile_loop updateAgentStatus insertActivity rest
                    (result\<lparr>reset := reset result @ [id' agent]\<rparr>) h2)))"

definition safeReconcileOnStartup ::
  "AgentLight list \<Rightarrow> (string \<Rightarrow> string \<Rightarrow> ('w, unit) callback) \<Rightarrow>
   (activity \<Rightarrow> ('w, unit) callback) \<Rightarrow> 'w host \<Rightarrow>
   (error \<times> 'w host) + (ReconcileResult \<times> 'w host)" where
  "safeReconcileOnStartup agents updateAgentStatus insertActivity h =
     (case reconcile_loop updateAgentStatus insertActivity agents
             \<lparr>reset = [], skipped = []\<rparr> h of
        Inl err \<Rightarrow> Inl err
      | Inr (result, h') \<Rightarrow>
          if length (skipped result) > 0
          then Inr (result,
                    console_log (ReconcileComplete (length (reset result))
                                   (length (skipped result))) h')
          else Inr (result, h'))"

subsection \<open>Guard 3: guardedStartAgent\<close>

definition not_found_message :: "string \<Rightarrow> string" where
  "not_found_message agentId = ''guardedStartAgent: agent '' @ agentId @ '' not found''"

definition refusal_message :: "string \<Rightarrow> string \<Rightarrow> string" where
  "refusal_message agentName agentId =
     ''guardedStartAgent: refusing to start stopped agent '' @ agentName @ ''('' @ agentId @
     ''). '' @ ''Stopped agents must be manually restarted. This prevents watchdog from '' @
     ''auto-recovering deliberately retired agents (e.g. VzKdJ89cpXOcS7EiC_n99).''"

text \<open>
  \<open>getAgent\<close> resolves to an agent or to \<open>undefined\<close> (\<open>None\<close>), or rejects;
  \<open>startAgent\<close> resolves or rejects.
\<close>

definition guardedStartAgent ::
  "string \<Rightarrow> (string \<Rightarrow> ('w, AgentLight option) callback) \<Rightarrow>
   (string \<Rightarrow> ('w, unit) callback) \<Rightarrow> 'w host \<Rightarrow> (error \<times> 'w host) + 'w host" where
  "guardedStartAgent agentId getAgent startAgent h =
     (case await_call (GetAgent agentId) (getAgent agentId) h of
        Inl err \<Rightarrow> Inl err
      | Inr (agent, h1) \<Rightarrow>
          (case agent of
             None \<Rightarrow> Inl (Error (not_found_message agentId), h1)
           | Some a \<Rightarrow>
               if status a = Stopped
               then Inl (Error (refusal_message (name a) agentId), h1)
               else
                 (case await_call (StartAgent agentId) (startAgent agentId) h1 of
                    Inl err \<Rightarrow> Inl err
                  | Inr (u, h2) \<Rightarrow> Inr h2)))"

text \<open>The statuses that the reconcile resets, as a predicate on the agent.\<close>

definition is_stale :: "AgentLight \<Rightarrow> bool" where
  "is_stale a = (status a = Thinking \<or> status a = Executing)"

text \<open>The calls that set the agents of a list to idle, one agent after the other.\<close>

definition reconcile_calls :: "AgentLight list \<Rightarrow> call list" where
  "reconcile_calls agents =
     concat (map (\<lambda>a. [UpdateAgentStatus (id' a) ''idle'', InsertActivity (reconcile_activity a)])
               agents)"

text \<open>
  What the reconcile is to do to the world, said without the host: each agent of a list
  in turn is set to idle and then gets its activity record, and the first rejection
  ends it with the world as the rejecting operation left it.
\<close>

fun set_idle_in_turn ::
  "(string \<Rightarrow> string \<Rightarrow> ('w, unit) callback) \<Rightarrow> (activity \<Rightarrow> ('w, unit) callback) \<Rightarrow>
   AgentLight list \<Rightarrow> ('w, unit) callback" where
  "set_idle_in_turn updateAgentStatus insertActivity [] w = (Inr (), w)"
| "set_idle_in_turn updateAgentStatus insertActivity (agent # rest) w =
     (case updateAgentStatus (id' agent) ''idle'' w of
        (Inl err, w1) \<Rightarrow> (Inl err, w1)
      | (Inr u1, w1) \<Rightarrow>
          (case insertActivity (reconcile_activity agent) w1 of
             (Inl err, w2) \<Rightarrow> (Inl err, w2)
           | (Inr u2, w2) \<Rightarrow> set_idle_in_turn updateAgentStatus insertActivity rest w2))"

section \<open>persistent-dedup.ts\<close>

subsection \<open>Types\<close>

record DedupMeta =
  taskId :: "string option"
  eventHash :: string
  seq :: "string option"

record DedupCheckResult =
  isDuplicate :: bool
  reason :: "string option"

subsection \<open>The durable store: schema.sql and the three statements of the module\<close>

text \<open>
  A row of table \<open>message_dedup\<close>.  Instants (JavaScript time values, \<open>TIMESTAMPTZ\<close>
  columns, ISO-8601 texts) are integers: milliseconds since the epoch.  There is one
  clock, read in whole milliseconds: \<open>Date.now()\<close> and the store's \<open>NOW()\<close> of one
  operation are the same instant.
\<close>

record dedup_row =
  row_id :: string
  from_agent_id :: string
  to_agent_id :: string
  content_hash :: string
  task_id :: "string option"
  seq_col :: "string option"
  seen_at :: int
  expires_at :: int

text \<open>The parameters \<open>$1 .. $7\<close> of the \<open>INSERT\<close> of \<open>checkAndRecordDedup\<close>.\<close>

record insert_params =
  p_id :: string
  p_from :: string
  p_to :: string
  p_hash :: string
  p_task :: "string option"
  p_seq :: "string option"
  p_expires :: int

text \<open>A row of the \<open>SELECT\<close> of \<open>loadStartupDedupGuard\<close>.\<close>

record select_row =
  r_from :: string
  r_to :: string
  r_hash :: string
  r_task :: "string option"
  r_seq :: "string option"
  r_seen_at_ms :: int

text \<open>
  \<open>DbAdapter.query\<close> is called with three statements only, so the adapter is its
  behaviour on each of them: given the store's \<open>NOW()\<close> and the table, a query
  rejects, and the table is as it was, or it resolves to its rows and leaves the table
  as the statement made it.
\<close>

type_synonym 'r query = "int \<Rightarrow> dedup_row list \<Rightarrow> error + ('r list \<times> dedup_row list)"

record DbAdapter =
  q_insert :: "insert_params \<Rightarrow> string query"
  q_select :: "int \<Rightarrow> select_row query"
  q_delete :: "string query"

text \<open>
  What PostgreSQL takes as a parameter.  An instant reaches the store as the text
  \<open>toISOString\<close> printed: with a four-digit year for the years 0 to 9999 and in the
  expanded form (a sign and six digits) outside.  The store reads the four-digit form
  of the years 1 to 9999 as a \<open>TIMESTAMPTZ\<close> and rejects the statement for the others.
  A text parameter must be free of the character NUL.  The texts of an index entry are
  limited by the page of a B-tree (an entry of about 2700 bytes at most, header
  included); 2048 bytes of text are within the limit, and more are taken to be refused.
\<close>

definition pg_timestamptz :: "int \<Rightarrow> bool" where
  "pg_timestamptz t = (- 62135596800000 \<le> t \<and> t < 253402300800000)"

definition pg_text :: "string \<Rightarrow> bool" where
  "pg_text t = (CHR 0x00 \<notin> set t)"

definition pg_null_or_text :: "string option \<Rightarrow> bool" where
  "pg_null_or_text c = (case c of None \<Rightarrow> True | Some t \<Rightarrow> pg_text t)"

definition pg_index_entry :: "string list \<Rightarrow> bool" where
  "pg_index_entry ts = (sum_list (map length ts) \<le> 2048)"

definition pg_accepts :: "insert_params \<Rightarrow> bool" where
  "pg_accepts p =
     (pg_text (p_id p) \<and> pg_text (p_from p) \<and> pg_text (p_to p) \<and> pg_text (p_hash p) \<and>
      pg_null_or_text (p_task p) \<and> pg_null_or_text (p_seq p) \<and>
      pg_timestamptz (p_expires p) \<and>
      pg_index_entry [p_id p] \<and> pg_index_entry [p_from p, p_to p, p_hash p])"

text \<open>
  What PostgreSQL does with the three statements on the schema of \<open>schema.sql\<close>.
  A statement with a parameter that the store does not take is rejected before it runs
  (the one message stands for the store's).  The unique index
  \<open>idx_message_dedup_route_hash\<close> is on \<open>(from_agent_id, to_agent_id, content_hash)\<close>
  and is the conflict target of the \<open>INSERT\<close>; \<open>id\<close> is the primary key, and a
  clash on it alone is an error.  Each statement runs in one piece, in a transaction of
  its own.
\<close>

definition same_route :: "string \<Rightarrow> string \<Rightarrow> string \<Rightarrow> dedup_row \<Rightarrow> bool" where
  "same_route f t h r = (from_agent_id r = f \<and> to_agent_id r = t \<and> content_hash r = h)"

definition pg_insert :: "insert_params \<Rightarrow> string query" where
  "pg_insert p now tbl =
     (if \<not> pg_accepts p
      then Inl (Error ''a parameter of the statement is not a value of its column type'')
      else if list_ex (same_route (p_from p) (p_to p) (p_hash p)) tbl then Inr ([], tbl)
      else if list_ex (\<lambda>r. row_id r = p_id p) tbl
      then Inl (Error ''duplicate key value violates unique constraint message_dedup_pkey'')
      else Inr ([p_id p],
                tbl @ [\<lparr> row_id = p_id p, from_agent_id = p_from p, to_agent_id = p_to p,
                          content_hash = p_hash p, task_id = p_task p, seq_col = p_seq p,
                          seen_at = now, expires_at = p_expires p \<rparr>]))"

definition project_row :: "dedup_row \<Rightarrow> select_row" where
  "project_row r =
     \<lparr> r_from = from_agent_id r, r_to = to_agent_id r, r_hash = content_hash r,
       r_task = task_id r, r_seq = seq_col r, r_seen_at_ms = seen_at r \<rparr>"

text \<open>
  \<open>ORDER BY seen_at DESC LIMIT 20000\<close>; rows of equal \<open>seen_at\<close> stay in the order of
  the table (the sort is stable).
\<close>

definition pg_select :: "int \<Rightarrow> select_row query" where
  "pg_select windowStart now tbl =
     (if \<not> pg_timestamptz windowStart
      then Inl (Error ''a parameter of the statement is not a value of its column type'')
      else Inr (map project_row
                  (take 20000
                     (sort_key (\<lambda>r. - seen_at r)
                        (filter (\<lambda>r. expires_at r > now \<and> seen_at r > windowStart) tbl))),
                tbl))"

definition pg_delete :: "string query" where
  "pg_delete now tbl =
     Inr (map row_id (filter (\<lambda>r. expires_at r < now) tbl),
          filter (\<lambda>r. \<not> expires_at r < now) tbl)"

definition postgres :: DbAdapter where
  "postgres = \<lparr> q_insert = pg_insert, q_select = pg_select, q_delete = pg_delete \<rparr>"

text \<open>A store that is down: every query rejects, with the value \<open>err\<close>.\<close>

definition rejecting :: "error \<Rightarrow> DbAdapter" where
  "rejecting err =
     \<lparr> q_insert = (\<lambda>p now tbl. Inl err),
       q_select = (\<lambda>w now tbl. Inl err),
       q_delete = (\<lambda>now tbl. Inl err) \<rparr>"

subsection \<open>Module state\<close>

text \<open>
  \<open>inMemoryCache\<close> is a JavaScript \<open>Map\<close>: its entries in insertion order.
  \<open>db_adapter\<close> is the module variable \<open>_db\<close>.  The table of the store is carried
  along with the module's state; a restart keeps it and nothing else.
\<close>

type_synonym cache = "(string \<times> int) list"

datatype dedup_log =
    DbCheckFailed "string option"
  | StartupGuardLoaded nat int
  | StartupGuardFailed "string option"
  | PruneFailed "string option"

record dedup_state =
  db_adapter :: "DbAdapter option"
  inMemoryCache :: cache
  message_dedup :: "dedup_row list"
  dedup_console :: "dedup_log list"

definition registerDbAdapter :: "DbAdapter \<Rightarrow> dedup_state \<Rightarrow> dedup_state" where
  "registerDbAdapter db s = s\<lparr>db_adapter := Some db\<rparr>"

definition getDb :: "dedup_state \<Rightarrow> error + DbAdapter" where
  "getDb s =
     (case db_adapter s of
        None \<Rightarrow> Inl (Error (''DB adapter not registered '' @ em_dash @
                            '' call registerDbAdapter first''))
      | Some db \<Rightarrow> Inr db)"

subsection \<open>The in-memory L1 cache\<close>

definition ROUTING_DEDUP_TTL_MS :: int where
  "ROUTING_DEDUP_TTL_MS = 72 * 60 * 60 * 1000"

definition ROUTING_DEDUP_MAX_KEYS :: nat where
  "ROUTING_DEDUP_MAX_KEYS = 10000"

fun Map_get :: "cache \<Rightarrow> string \<Rightarrow> int option" where
  "Map_get [] key = None"
| "Map_get ((k, v) # rest) key = (if k = key then Some v else Map_get rest key)"

text \<open>\<open>Map.set\<close>: a key that is present keeps its place, a new key goes last.\<close>

fun Map_set :: "string \<Rightarrow> int \<Rightarrow> cache \<Rightarrow> cache" where
  "Map_set key val [] = [(key, val)]"
| "Map_set key val ((k, v) # rest) =
     (if k = key then (k, val) # rest else (k, v) # Map_set key val rest)"

text \<open>The \<open>for\<close> loop of \<open>evictExpired\<close>: an entry older than the module's TTL is deleted.\<close>

fun sweep_expired :: "int \<Rightarrow> cache \<Rightarrow> cache" where
  "sweep_expired nowMs [] = []"
| "sweep_expired nowMs ((key, seenAt) # rest) =
     (if nowMs - seenAt > ROUTING_DEDUP_TTL_MS then sweep_expired nowMs rest
      else (key, seenAt) # sweep_expired nowMs rest)"

text \<open>
  The \<open>while\<close> loop of \<open>evictExpired\<close>.  \<open>oldest\<close> is the first key; the entry is
  deleted only \<open>if (oldest)\<close>, and the empty string is falsy: with an empty first key the
  loop runs again on the same map, for ever.  \<open>None\<close> is that run.
\<close>

partial_function (option) evict_oldest :: "cache \<Rightarrow> cache option" where
  "evict_oldest m =
     (if length m > ROUTING_DEDUP_MAX_KEYS then
        (case m of
           [] \<Rightarrow> evict_oldest m
         | (oldest, v) # rest \<Rightarrow> if oldest \<noteq> [] then evict_oldest rest else evict_oldest m)
      else Some m)"

definition evictExpired :: "int \<Rightarrow> cache \<Rightarrow> cache option" where
  "evictExpired nowMs m = evict_oldest (sweep_expired nowMs m)"

definition buildDedupKey :: "string \<Rightarrow> string \<Rightarrow> DedupMeta \<Rightarrow> string" where
  "buildDedupKey fromAgentId toAgentId meta =
     fromAgentId @ ''->'' @ toAgentId @
     ''|task:'' @ (case taskId meta of None \<Rightarrow> ''none'' | Some t \<Rightarrow> t) @
     ''|hash:'' @ eventHash meta @
     ''|seq:'' @ (case seq meta of None \<Rightarrow> ''none'' | Some q \<Rightarrow> q)"

subsection \<open>Content hash helper\<close>

text \<open>
  \<open>digest\<close> stands for \<open>crypto.createHash("sha256").update(_).digest("hex")\<close>;
  \<open>sha256_hex\<close> below is that digest.
\<close>

definition hashContent :: "(string \<Rightarrow> string) \<Rightarrow> string \<Rightarrow> string" where
  "hashContent digest content = take 32 (digest content)"

subsection \<open>SHA-256\<close>

text \<open>
  \<open>crypto.createHash("sha256").update(s).digest("hex")\<close> for a string given as its
  UTF-8 bytes: the hash function of FIPS 180-4 on 32-bit words, written out in lower-case
  hexadecimal.  The message schedule is kept newest word first.
\<close>

type_synonym w32 = "32 word"

text \<open>
  The constants of the standard are the first 32 bits of the fractional parts of the
  cube roots of the first 64 primes, and the initial hash value those of the square
  roots of the first 8 primes.  \<open>greatest_root ok b 0\<close> builds the greatest \<open>r\<close> with
  \<open>ok r\<close> from the power of two \<open>b\<close> downwards: the integer root, found bit by bit, of
  the prime scaled by \<open>2 ^ 64\<close> (square root) or \<open>2 ^ 96\<close> (cube root).
\<close>

function sieve :: "int list \<Rightarrow> int list" where
  "sieve [] = []"
| "sieve (p # xs) = p # sieve (filter (\<lambda>x. x mod p \<noteq> 0) xs)"
  by pat_completeness auto
termination
  by (relation "measure length") (auto simp: less_Suc_eq_le)

definition first_primes :: "nat \<Rightarrow> int list" where
  "first_primes n = take n (sieve [2..311])"

function greatest_root :: "(int \<Rightarrow> bool) \<Rightarrow> int \<Rightarrow> int \<Rightarrow> int" where
  "greatest_root ok b r =
     (if b \<le> 0 then r else greatest_root ok (b div 2) (if ok (r + b) then r + b else r))"
  by pat_completeness auto
termination
  by (relation "measure (\<lambda>(ok, b, r). nat b)") auto

declare greatest_root.simps [simp del]

definition frac_sqrt32 :: "int \<Rightarrow> w32" where
  "frac_sqrt32 p =
     (let n = p * 18446744073709551616
      in of_int (greatest_root (\<lambda>r. r * r \<le> n) 34359738368 0))"

definition frac_cbrt32 :: "int \<Rightarrow> w32" where
  "frac_cbrt32 p =
     (let n = p * 79228162514264337593543950336
      in of_int (greatest_root (\<lambda>r. r * r * r \<le> n) 34359738368 0))"

definition K256 :: "w32 list" where
  "K256 = map frac_cbrt32 (first_primes 64)"

definition H256 :: "w32 list" where
  "H256 = map frac_sqrt32 (first_primes 8)"

definition rotr :: "nat \<Rightarrow> w32 \<Rightarrow> w32" where
  "rotr n w = (drop_bit n w) OR (push_bit (32 - n) w)"

definition ssig0 :: "w32 \<Rightarrow> w32" where
  "ssig0 x = rotr 7 x XOR rotr 18 x XOR drop_bit 3 x"

definition ssig1 :: "w32 \<Rightarrow> w32" where
  "ssig1 x = rotr 17 x XOR rotr 19 x XOR drop_bit 10 x"

definition bsig0 :: "w32 \<Rightarrow> w32" where
  "bsig0 x = rotr 2 x XOR rotr 13 x XOR rotr 22 x"

definition bsig1 :: "w32 \<Rightarrow> w32" where
  "bsig1 x = rotr 6 x XOR rotr 11 x XOR rotr 25 x"

definition ch :: "w32 \<Rightarrow> w32 \<Rightarrow> w32 \<Rightarrow> w32" where
  "ch x y z = (x AND y) XOR (NOT x AND z)"

definition maj :: "w32 \<Rightarrow> w32 \<Rightarrow> w32 \<Rightarrow> w32" where
  "maj x y z = (x AND y) XOR (x AND z) XOR (y AND z)"

fun sha_schedule :: "nat \<Rightarrow> w32 list \<Rightarrow> w32 list" where
  "sha_schedule 0 ws = ws"
| "sha_schedule (Suc n) ws =
     sha_schedule n ((ssig1 (ws ! 1) + ws ! 6 + ssig0 (ws ! 14) + ws ! 15) # ws)"

fun sha_rounds :: "w32 list \<Rightarrow> w32 list \<Rightarrow> w32 list \<Rightarrow> w32 list" where
  "sha_rounds [] ws st = st"
| "sha_rounds (k # ks) [] st = st"
| "sha_rounds (k # ks) (w # ws) [a, b, c, d, e, f, g, h] =
     (let t1 = h + bsig1 e + ch e f g + k + w; t2 = bsig0 a + maj a b c
      in sha_rounds ks ws [t1 + t2, a, b, c, d + t1, e, f, g])"
| "sha_rounds (k # ks) (w # ws) st = st"

fun be32 :: "int list \<Rightarrow> w32 list" where
  "be32 (a # b # c # d # rest) = of_int (((a * 256 + b) * 256 + c) * 256 + d) # be32 rest"
| "be32 _ = []"

definition sha_compress :: "w32 list \<Rightarrow> int list \<Rightarrow> w32 list" where
  "sha_compress st block =
     map2 (+) st (sha_rounds K256 (rev (sha_schedule 48 (rev (be32 block)))) st)"

fun sha_blocks :: "nat \<Rightarrow> w32 list \<Rightarrow> int list \<Rightarrow> w32 list" where
  "sha_blocks 0 st bs = st"
| "sha_blocks (Suc n) st bs = sha_blocks n (sha_compress st (take 64 bs)) (drop 64 bs)"

definition be64 :: "int \<Rightarrow> int list" where
  "be64 n = map (\<lambda>i. (n div 256 ^ i) mod 256) [7, 6, 5, 4, 3, 2, 1, 0]"

definition sha_pad :: "int list \<Rightarrow> int list" where
  "sha_pad bs =
     bs @ [128] @ replicate ((119 - length bs mod 64) mod 64) 0 @ be64 (8 * int (length bs))"

definition hex_digit :: "int \<Rightarrow> char" where
  "hex_digit d = (''0123456789abcdef'' ! nat d)"

definition hex32 :: "w32 \<Rightarrow> string" where
  "hex32 w = map (\<lambda>i. hex_digit ((uint w div 16 ^ i) mod 16)) [7, 6, 5, 4, 3, 2, 1, 0]"

definition sha256_hex :: "string \<Rightarrow> string" where
  "sha256_hex s =
     (let bs = sha_pad (map of_char s)
      in concat (map hex32 (sha_blocks (length bs div 64) H256 bs)))"

subsection \<open>Dates and numbers in texts\<close>

text \<open>
  \<open>new Date(t).toISOString()\<close> throws a \<open>RangeError\<close> when \<open>t\<close> is not a time value
  (more than 8.64e15 ms from the epoch).  The text it returns is kept as the instant it
  prints; which instants print as a text that the store reads is \<open>pg_timestamptz\<close>.
\<close>

definition valid_time :: "int \<Rightarrow> bool" where
  "valid_time t = (- 8640000000000000 \<le> t \<and> t \<le> 8640000000000000)"

definition toISOString :: "int \<Rightarrow> error + int" where
  "toISOString t = (if valid_time t then Inr t else Inl (RangeError ''Invalid time value''))"

definition digit_char :: "nat \<Rightarrow> char" where
  "digit_char d = char_of (48 + d)"

fun show_nat :: "nat \<Rightarrow> string" where
  "show_nat n = (if n < 10 then [digit_char n] else show_nat (n div 10) @ [digit_char (n mod 10)])"

declare show_nat.simps [simp del]

definition show_int :: "int \<Rightarrow> string" where
  "show_int i = (if i < 0 then ''-'' @ show_nat (nat (- i)) else show_nat (nat i))"

text \<open>\<open>Math.round(d / 1000)\<close> for an integer \<open>d\<close>: halves round up.\<close>

definition round_seconds :: "int \<Rightarrow> int" where
  "round_seconds d = (d + 500) div 1000"

subsection \<open>checkAndRecordDedup\<close>

text \<open>
  A call returns \<open>None\<close> when it never returns, and otherwise what it threw or
  returned with the state it left.  \<open>nowMs\<close> is what \<open>Date.now()\<close> gave and
  \<open>randomHex\<close> what \<open>crypto.randomBytes(8).toString("hex")\<close> gave.
\<close>

type_synonym 'a outcome = "((error + 'a) \<times> dedup_state) option"

definition l1_hit :: "int \<Rightarrow> int \<Rightarrow> DedupCheckResult" where
  "l1_hit nowMs seenAt =
     \<lparr> isDuplicate = True,
       reason = Some (''L1 cache hit (seen '' @ show_int (round_seconds (nowMs - seenAt)) @
                      ''s ago)'') \<rparr>"

definition db_conflict :: DedupCheckResult where
  "db_conflict =
     \<lparr> isDuplicate = True,
       reason = Some (''DB conflict '' @ em_dash @ '' already seen in persistent store'') \<rparr>"

definition not_duplicate :: DedupCheckResult where
  "not_duplicate = \<lparr> isDuplicate = False, reason = None \<rparr>"

text \<open>The parameters of the \<open>INSERT\<close> that a call sends.\<close>

definition insert_of ::
  "string \<Rightarrow> string \<Rightarrow> string \<Rightarrow> DedupMeta \<Rightarrow> int \<Rightarrow> insert_params" where
  "insert_of randomHex fromAgentId toAgentId meta expiresAt =
     \<lparr> p_id = ''dedup_'' @ randomHex, p_from = fromAgentId, p_to = toAgentId,
       p_hash = eventHash meta, p_task = taskId meta, p_seq = seq meta,
       p_expires = expiresAt \<rparr>"

text \<open>
  The L2 part: from \<open>getDb()\<close> to the end of the function.  In the \<open>catch\<close> the
  message of the exception is read first, for the line on the console; when that read
  throws, the function throws and the cache is not set.
\<close>

definition checkAndRecord_L2 ::
  "string \<Rightarrow> string \<Rightarrow> DedupMeta \<Rightarrow> int \<Rightarrow> int \<Rightarrow> string \<Rightarrow> string \<Rightarrow> dedup_state \<Rightarrow>
   (error + DedupCheckResult) \<times> dedup_state" where
  "checkAndRecord_L2 fromAgentId toAgentId meta ttlMs nowMs randomHex key s =
     (case getDb s of
        Inl err \<Rightarrow> (Inl err, s)
      | Inr db \<Rightarrow>
          (case toISOString (nowMs + ttlMs) of
             Inl err \<Rightarrow> (Inl err, s)
           | Inr expiresAt \<Rightarrow>
               (case q_insert db (insert_of randomHex fromAgentId toAgentId meta expiresAt)
                       nowMs (message_dedup s) of
                  Inl err \<Rightarrow>
                    (case message_of err of
                       Inl thrown \<Rightarrow> (Inl thrown, s)
                     | Inr msg \<Rightarrow>
                         (Inr not_duplicate,
                          s\<lparr> inMemoryCache := Map_set key nowMs (inMemoryCache s),
                             dedup_console := dedup_console s @ [DbCheckFailed msg] \<rparr>))
                | Inr (rows, tbl) \<Rightarrow>
                    if length rows = 0
                    then (Inr db_conflict,
                          s\<lparr> inMemoryCache := Map_set key nowMs (inMemoryCache s),
                             message_dedup := tbl \<rparr>)
                    else (Inr not_duplicate,
                          s\<lparr> inMemoryCache := Map_set key nowMs (inMemoryCache s),
                             message_dedup := tbl \<rparr>))))"

definition checkAndRecordDedup ::
  "string \<Rightarrow> string \<Rightarrow> DedupMeta \<Rightarrow> int \<Rightarrow> int \<Rightarrow> string \<Rightarrow> dedup_state \<Rightarrow>
   DedupCheckResult outcome" where
  "checkAndRecordDedup fromAgentId toAgentId meta ttlMs nowMs randomHex s =
     (let key = buildDedupKey fromAgentId toAgentId meta in
      case evictExpired nowMs (inMemoryCache s) of
        None \<Rightarrow> None
      | Some m \<Rightarrow>
          (let s1 = s\<lparr>inMemoryCache := m\<rparr> in
           case Map_get m key of
             None \<Rightarrow>
               Some (checkAndRecord_L2 fromAgentId toAgentId meta ttlMs nowMs randomHex key s1)
           | Some seenAt \<Rightarrow>
               if nowMs - seenAt \<le> ttlMs then Some (Inr (l1_hit nowMs seenAt), s1)
               else Some (checkAndRecord_L2 fromAgentId toAgentId meta ttlMs nowMs
                            randomHex key s1)))"

subsection \<open>loadStartupDedupGuard\<close>

text \<open>
  \<open>row.task_id ? String(row.task_id) : null\<close>: a \<open>NULL\<close> and an empty text both give
  \<open>null\<close>.
\<close>

definition truthy_text :: "string option \<Rightarrow> string option" where
  "truthy_text c = (case c of None \<Rightarrow> None | Some t \<Rightarrow> if t = [] then None else Some t)"

fun load_rows :: "select_row list \<Rightarrow> cache \<Rightarrow> cache" where
  "load_rows [] m = m"
| "load_rows (row # rest) m =
     load_rows rest
       (Map_set (buildDedupKey (r_from row) (r_to row)
                   \<lparr> taskId = truthy_text (r_task row), eventHash = r_hash row,
                     seq = truthy_text (r_seq row) \<rparr>)
                (r_seen_at_ms row) m)"

definition loadStartupDedupGuard :: "int \<Rightarrow> int \<Rightarrow> dedup_state \<Rightarrow> (error + unit) \<times> dedup_state" where
  "loadStartupDedupGuard windowMs nowMs s =
     (case getDb s of
        Inl err \<Rightarrow> (Inl err, s)
      | Inr db \<Rightarrow>
          (case toISOString (nowMs - windowMs) of
             Inl err \<Rightarrow> (Inl err, s)
           | Inr windowStart \<Rightarrow>
               (case q_select db windowStart nowMs (message_dedup s) of
                  Inl err \<Rightarrow>
                    (case message_of err of
                       Inl thrown \<Rightarrow> (Inl thrown, s)
                     | Inr msg \<Rightarrow>
                         (Inr (),
                          s\<lparr>dedup_console := dedup_console s @ [StartupGuardFailed msg]\<rparr>))
                | Inr (rows, tbl) \<Rightarrow>
                    (Inr (),
                     s\<lparr> inMemoryCache := load_rows rows (inMemoryCache s),
                        message_dedup := tbl,
                        dedup_console := dedup_console s @
                                         [StartupGuardLoaded (length rows) windowMs] \<rparr>))))"

subsection \<open>pruneExpiredDedup\<close>

definition pruneExpiredDedup :: "int \<Rightarrow> dedup_state \<Rightarrow> (error + nat) \<times> dedup_state" where
  "pruneExpiredDedup nowMs s =
     (case getDb s of
        Inl err \<Rightarrow> (Inl err, s)
      | Inr db \<Rightarrow>
          (case q_delete db nowMs (message_dedup s) of
             Inl err \<Rightarrow>
               (case message_of err of
                  Inl thrown \<Rightarrow> (Inl thrown, s)
                | Inr msg \<Rightarrow>
                    (Inr 0, s\<lparr>dedup_console := dedup_console s @ [PruneFailed msg]\<rparr>))
           | Inr (rows, tbl) \<Rightarrow> (Inr (length rows), s\<lparr>message_dedup := tbl\<rparr>)))"

subsection \<open>Runs of the module\<close>

text \<open>
  A process restart: the module is loaded afresh (an empty cache, an empty console) and
  the same adapter is registered again; the table of the store stays.
\<close>

definition restart :: "dedup_state \<Rightarrow> dedup_state" where
  "restart s = s\<lparr>inMemoryCache := [], dedup_console := []\<rparr>"

text \<open>
  The exported operations as steps on the state.  A step is \<open>None\<close> when the operation
  does not return; an operation that throws leaves the state it threw with.
\<close>

datatype dedup_op =
    Check string string DedupMeta int int string
  | LoadGuard int int
  | Prune int

fun op_time :: "dedup_op \<Rightarrow> int" where
  "op_time (Check fromAgentId toAgentId meta ttlMs nowMs randomHex) = nowMs"
| "op_time (LoadGuard windowMs nowMs) = nowMs"
| "op_time (Prune nowMs) = nowMs"

fun step :: "dedup_op \<Rightarrow> dedup_state \<Rightarrow> dedup_state option" where
  "step (Check fromAgentId toAgentId meta ttlMs nowMs randomHex) s =
     map_option snd (checkAndRecordDedup fromAgentId toAgentId meta ttlMs nowMs randomHex s)"
| "step (LoadGuard windowMs nowMs) s = Some (snd (loadStartupDedupGuard windowMs nowMs s))"
| "step (Prune nowMs) s = Some (snd (pruneExpiredDedup nowMs s))"

fun run_ops :: "dedup_op list \<Rightarrow> dedup_state \<Rightarrow> dedup_state option" where
  "run_ops [] s = Some s"
| "run_ops (x # xs) s = (case step x s of None \<Rightarrow> None | Some s' \<Rightarrow> run_ops xs s')"

text \<open>The TTL window of a record made at \<open>t0\<close> with \<open>ttlMs\<close>.\<close>

definition within_window :: "int \<Rightarrow> int \<Rightarrow> int \<Rightarrow> bool" where
  "within_window t0 ttlMs t = (t0 \<le> t \<and> t \<le> t0 + ttlMs)"

text \<open>
  Every key the module stores comes from \<open>buildDedupKey\<close> and is not empty;
  \<open>keys_nonempty\<close> says so of a cache.  \<open>l1_miss\<close>: no entry of the cache for the key
  is within \<open>ttlMs\<close> of \<open>nowMs\<close>.
\<close>

definition keys_nonempty :: "cache \<Rightarrow> bool" where
  "keys_nonempty m = list_all (\<lambda>e. fst e \<noteq> []) m"

definition l1_miss :: "string \<Rightarrow> int \<Rightarrow> int \<Rightarrow> cache \<Rightarrow> bool" where
  "l1_miss key ttlMs nowMs m = list_all (\<lambda>e. fst e \<noteq> key \<or> nowMs - snd e > ttlMs) m"

definition has_record :: "string \<Rightarrow> string \<Rightarrow> string \<Rightarrow> dedup_row list \<Rightarrow> bool" where
  "has_record f t h tbl = list_ex (same_route f t h) tbl"

definition id_taken :: "string \<Rightarrow> dedup_row list \<Rightarrow> bool" where
  "id_taken randomHex tbl = list_ex (\<lambda>r. row_id r = ''dedup_'' @ randomHex) tbl"

text \<open>
  \<open>recorded f t h T s\<close>: the store is PostgreSQL, the cache is well formed, and the table
  holds a record of route \<open>(f, t, h)\<close> that expires at \<open>T\<close> or later.
\<close>

definition recorded :: "string \<Rightarrow> string \<Rightarrow> string \<Rightarrow> int \<Rightarrow> dedup_state \<Rightarrow> bool" where
  "recorded f t h T s =
     (db_adapter s = Some postgres \<and> keys_nonempty (inMemoryCache s) \<and>
      list_ex (\<lambda>r. same_route f t h r \<and> T \<le> expires_at r) (message_dedup s))"

subsection \<open>Two calls at once\<close>

text \<open>
  \<open>checkAndRecordDedup\<close> has one \<open>await\<close>.  JavaScript runs the code up to it in one
  piece and the code after it in another; in between, the store executes the statement,
  in one piece as well (the conditional insert is atomic).  \<open>before_await\<close> ends with a
  result, or with the statement sent to the adapter; \<open>store_executes\<close> is the store's
  piece and \<open>after_await\<close> the rest of the function.
\<close>

definition before_await ::
  "string \<Rightarrow> string \<Rightarrow> DedupMeta \<Rightarrow> int \<Rightarrow> int \<Rightarrow> string \<Rightarrow> dedup_state \<Rightarrow>
   (((DbAdapter \<times> insert_params) + (error + DedupCheckResult)) \<times> dedup_state) option" where
  "before_await fromAgentId toAgentId meta ttlMs nowMs randomHex s =
     (let key = buildDedupKey fromAgentId toAgentId meta in
      case evictExpired nowMs (inMemoryCache s) of
        None \<Rightarrow> None
      | Some m \<Rightarrow>
          (let s1 = s\<lparr>inMemoryCache := m\<rparr>;
               seen = Map_get m key
           in if seen \<noteq> None \<and> nowMs - the seen \<le> ttlMs
              then Some (Inr (Inr (l1_hit nowMs (the seen))), s1)
              else
                (case getDb s1 of
                   Inl err \<Rightarrow> Some (Inr (Inl err), s1)
                 | Inr db \<Rightarrow>
                     (case toISOString (nowMs + ttlMs) of
                        Inl err \<Rightarrow> Some (Inr (Inl err), s1)
                      | Inr expiresAt \<Rightarrow>
                          Some (Inl (db, insert_of randomHex fromAgentId toAgentId meta expiresAt),
                                s1)))))"

definition store_executes ::
  "DbAdapter \<Rightarrow> insert_params \<Rightarrow> int \<Rightarrow> dedup_row list \<Rightarrow> (error + string list) \<times> dedup_row list" where
  "store_executes db p now tbl =
     (case q_insert db p now tbl of
        Inl err \<Rightarrow> (Inl err, tbl)
      | Inr (rows, tbl') \<Rightarrow> (Inr rows, tbl'))"

definition after_await ::
  "string \<Rightarrow> int \<Rightarrow> (error + string list) \<Rightarrow> dedup_state \<Rightarrow>
   (error + DedupCheckResult) \<times> dedup_state" where
  "after_await key nowMs answer s =
     (case answer of
        Inl err \<Rightarrow>
          (case message_of err of
             Inl thrown \<Rightarrow> (Inl thrown, s)
           | Inr msg \<Rightarrow>
               (Inr not_duplicate,
                s\<lparr> inMemoryCache := Map_set key nowMs (inMemoryCache s),
                   dedup_console := dedup_console s @ [DbCheckFailed msg] \<rparr>))
      | Inr rows \<Rightarrow>
          if length rows = 0
          then (Inr db_conflict, s\<lparr>inMemoryCache := Map_set key nowMs (inMemoryCache s)\<rparr>)
          else (Inr not_duplicate, s\<lparr>inMemoryCache := Map_set key nowMs (inMemoryCache s)\<rparr>))"

text \<open>
  A race of two calls \<open>CA\<close> and \<open>CB\<close> with the same \<open>fromAgentId\<close>, \<open>toAgentId\<close>,
  \<open>meta\<close> and \<open>ttlMs\<close>; each has its own \<open>Date.now()\<close> and random id.  \<open>ri_home\<close> gives
  the call whose slot holds the state of the caller's process: the two calls share a
  process (and its cache) or run in two processes.  The table of the store is \<open>store\<close>,
  shared by all; the \<open>message_dedup\<close> fields of the process states are not used here.
\<close>

datatype caller = CA | CB

fun other :: "caller \<Rightarrow> caller" where
  "other CA = CB"
| "other CB = CA"

datatype call_phase =
    NotStarted
  | Awaiting DbAdapter insert_params
  | Answered "error + string list"
  | Returned "error + DedupCheckResult"

record race_inputs =
  ri_from :: string
  ri_to :: string
  ri_meta :: DedupMeta
  ri_ttl :: int
  ri_now :: "caller \<Rightarrow> int"
  ri_rnd :: "caller \<Rightarrow> string"
  ri_home :: "caller \<Rightarrow> caller"

record race =
  mem :: "caller \<Rightarrow> dedup_state"
  store :: "dedup_row list"
  phase :: "caller \<Rightarrow> call_phase"

definition ri_key :: "race_inputs \<Rightarrow> string" where
  "ri_key i = buildDedupKey (ri_from i) (ri_to i) (ri_meta i)"

text \<open>
  The scheduler lets a caller take its next piece.  \<open>None\<close>: the piece does not end.
\<close>

definition advance :: "race_inputs \<Rightarrow> caller \<Rightarrow> race \<Rightarrow> race option" where
  "advance i c cfg =
     (case phase cfg c of
        NotStarted \<Rightarrow>
          (case before_await (ri_from i) (ri_to i) (ri_meta i) (ri_ttl i) (ri_now i c) (ri_rnd i c)
                  (mem cfg (ri_home i c)) of
             None \<Rightarrow> None
           | Some (Inl (db, p), s') \<Rightarrow>
               Some (cfg\<lparr> mem := (mem cfg)(ri_home i c := s'),
                          phase := (phase cfg)(c := Awaiting db p) \<rparr>)
           | Some (Inr r, s') \<Rightarrow>
               Some (cfg\<lparr> mem := (mem cfg)(ri_home i c := s'),
                          phase := (phase cfg)(c := Returned r) \<rparr>))
      | Awaiting db p \<Rightarrow>
          (case store_executes db p (ri_now i c) (store cfg) of
             (answer, tbl) \<Rightarrow>
               Some (cfg\<lparr> store := tbl, phase := (phase cfg)(c := Answered answer) \<rparr>))
      | Answered answer \<Rightarrow>
          (case after_await (ri_key i) (ri_now i c) answer (mem cfg (ri_home i c)) of
             (r, s') \<Rightarrow>
               Some (cfg\<lparr> mem := (mem cfg)(ri_home i c := s'),
                          phase := (phase cfg)(c := Returned r) \<rparr>))
      | Returned r \<Rightarrow> Some cfg)"

fun run_schedule :: "race_inputs \<Rightarrow> caller list \<Rightarrow> race \<Rightarrow> race option" where
  "run_schedule i [] cfg = Some cfg"
| "run_schedule i (c # cs) cfg =
     (case advance i c cfg of None \<Rightarrow> None | Some cfg' \<Rightarrow> run_schedule i cs cfg')"

definition turns :: "caller \<Rightarrow> caller list \<Rightarrow> nat" where
  "turns c sched = length (filter (\<lambda>x. x = c) sched)"

text \<open>The start of a race: nothing has run, and there is no record of the fingerprint.\<close>

definition race_start :: "race_inputs \<Rightarrow> race \<Rightarrow> bool" where
  "race_start i cfg =
     (list_all (\<lambda>c. phase cfg c = NotStarted \<and>
                    db_adapter (mem cfg (ri_home i c)) = Some postgres \<and>
                    keys_nonempty (inMemoryCache (mem cfg (ri_home i c))) \<and>
                    Map_get (inMemoryCache (mem cfg (ri_home i c))) (ri_key i) = None \<and>
                    \<not> id_taken (ri_rnd i c) (store cfg) \<and>
                    pg_accepts (insert_of (ri_rnd i c) (ri_from i) (ri_to i) (ri_meta i)
                                  (ri_now i c + ri_ttl i)))
        [CA, CB] \<and>
      \<not> has_record (ri_from i) (ri_to i) (eventHash (ri_meta i)) (store cfg))"

text \<open>What a call has got from the store, for the proof.\<close>

definition won :: "call_phase \<Rightarrow> bool" where
  "won ph =
     (case ph of
        Answered (Inr rows) \<Rightarrow> rows \<noteq> []
      | Returned (Inr r) \<Rightarrow> \<not> isDuplicate r
      | _ \<Rightarrow> False)"

definition lost :: "call_phase \<Rightarrow> bool" where
  "lost ph =
     (case ph of
        Answered (Inr rows) \<Rightarrow> rows = []
      | Returned (Inr r) \<Rightarrow> isDuplicate r
      | _ \<Rightarrow> False)"

definition well_phased :: "race_inputs \<Rightarrow> caller \<Rightarrow> call_phase \<Rightarrow> bool" where
  "well_phased i c ph =
     (case ph of
        NotStarted \<Rightarrow> True
      | Awaiting db p \<Rightarrow>
          db = postgres \<and>
          p = insert_of (ri_rnd i c) (ri_from i) (ri_to i) (ri_meta i) (ri_now i c + ri_ttl i)
      | Answered a \<Rightarrow> \<not> isl a
      | Returned r \<Rightarrow> \<not> isl r)"

definition rank :: "call_phase \<Rightarrow> nat" where
  "rank ph = (case ph of NotStarted \<Rightarrow> 0 | Awaiting db p \<Rightarrow> 1 | Answered a \<Rightarrow> 2 | Returned r \<Rightarrow> 3)"

definition caller_ok :: "race_inputs \<Rightarrow> race \<Rightarrow> caller \<Rightarrow> bool" where
  "caller_ok i cfg c =
     (db_adapter (mem cfg (ri_home i c)) = Some postgres \<and>
      keys_nonempty (inMemoryCache (mem cfg (ri_home i c))) \<and>
      pg_accepts (insert_of (ri_rnd i c) (ri_from i) (ri_to i) (ri_meta i)
                    (ri_now i c + ri_ttl i)) \<and>
      well_phased i c (phase cfg c) \<and>
      (lost (phase cfg c) \<longrightarrow> won (phase cfg (other c))) \<and>
      (Map_get (inMemoryCache (mem cfg (ri_home i c))) (ri_key i) \<noteq> None \<longrightarrow>
         rank (phase cfg c) = 3 \<or>
         (ri_home i (other c) = ri_home i c \<and> rank (phase cfg (other c)) = 3)) \<and>
      (\<forall>r\<in>set (store cfg). row_id r = ''dedup_'' @ ri_rnd i c \<longrightarrow>
         same_route (ri_from i) (ri_to i) (eventHash (ri_meta i)) r))"

definition race_inv :: "race_inputs \<Rightarrow> race \<Rightarrow> bool" where
  "race_inv i cfg =
     (caller_ok i cfg CA \<and> caller_ok i cfg CB \<and>
      (has_record (ri_from i) (ri_to i) (eventHash (ri_meta i)) (store cfg) \<longleftrightarrow>
         won (phase cfg CA) \<or> won (phase cfg CB)) \<and>
      \<not> (won (phase cfg CA) \<and> won (phase cfg CB)))"

section \<open>message-dedup.ts\<close>

text \<open>
  Here the code looks inside its strings (a regular expression, \<open>trim\<close>), so a
  string is the list of its UTF-16 code units.  \<open>isWhiteSpace\<close> is the class \<open>\s\<close>
  of a regular expression without the \<open>u\<close> flag, which is also what \<open>trim\<close> strips:
  the white space and the line terminators of ECMAScript.
\<close>

type_synonym code_unit = "16 word"
type_synonym jsstring = "code_unit list"

definition isWhiteSpace :: "code_unit \<Rightarrow> bool" where
  "isWhiteSpace c =
     (c = 0x09 \<or> c = 0x0A \<or> c = 0x0B \<or> c = 0x0C \<or> c = 0x0D \<or> c = 0x20 \<or> c = 0xA0 \<or>
      c = 0x1680 \<or> (0x2000 \<le> c \<and> c \<le> 0x200A) \<or> c = 0x2028 \<or> c = 0x2029 \<or>
      c = 0x202F \<or> c = 0x205F \<or> c = 0x3000 \<or> c = 0xFEFF)"

definition DEDUP_TTL_MS :: int where
  "DEDUP_TTL_MS = 72 * 60 * 60 * 1000"

text \<open>\<open>content.replace(/\s+/g, " ")\<close>: every maximal run of white space becomes one space.\<close>

function collapse_ws :: "jsstring \<Rightarrow> jsstring" where
  "collapse_ws [] = []"
| "collapse_ws (c # cs) =
     (if isWhiteSpace c then 0x20 # collapse_ws (dropWhile isWhiteSpace cs)
      else c # collapse_ws cs)"
  by pat_completeness auto
termination
  by (relation "measure length") (auto simp: length_dropWhile_le less_Suc_eq_le)

definition trim :: "jsstring \<Rightarrow> jsstring" where
  "trim s = rev (dropWhile isWhiteSpace (rev (dropWhile isWhiteSpace s)))"

text \<open>
  \<open>digest\<close> stands for \<open>createHash("sha256").update(_).digest("hex")\<close> on a JavaScript
  string; \<open>computeMessageHash\<close> is the same function of its arguments for every digest.
\<close>

definition computeMessageHash :: "(jsstring \<Rightarrow> 'd) \<Rightarrow> jsstring \<Rightarrow> jsstring \<Rightarrow> 'd" where
  "computeMessageHash digest toAgentId content =
     (let normalized = trim (collapse_ws content)
      in digest (toAgentId @ [0x3A, 0x3A] @ normalized))"

text \<open>The \<open>for\<close> loop of \<open>isDuplicateMessage\<close> over the rows of the query.\<close>

fun some_row_matches :: "(jsstring \<Rightarrow> 'd) \<Rightarrow> jsstring \<Rightarrow> 'd \<Rightarrow> jsstring list \<Rightarrow> bool" where
  "some_row_matches digest toAgentId incomingHash [] = False"
| "some_row_matches digest toAgentId incomingHash (row # rows) =
     (if computeMessageHash digest toAgentId row = incomingHash then True
      else some_row_matches digest toAgentId incomingHash rows)"

text \<open>
  \<open>getDb()\<close> of \<open>../db/schema.js\<close> rejects or gives the database; the one query of the
  module maps the recipient and the instant \<open>since\<close> to the contents of the recent user
  messages, or rejects.  Every exception inside the \<open>try\<close> ends in \<open>false\<close> and a
  warning on the console.
\<close>

type_synonym messages_db = "jsstring \<Rightarrow> int \<Rightarrow> error + jsstring list"

definition allowing_delivery :: "error \<Rightarrow> bool \<times> string list" where
  "allowing_delivery err =
     (False, [''[MessageDedup] DB check failed, allowing delivery: '' @
              printed (optional_message err)])"

definition isDuplicateMessage ::
  "(jsstring \<Rightarrow> 'd) \<Rightarrow> (error + messages_db) \<Rightarrow> int \<Rightarrow> jsstring \<Rightarrow> jsstring \<Rightarrow> bool \<times> string list" where
  "isDuplicateMessage digest db_result nowMs toAgentId content =
     (case db_result of
        Inl err \<Rightarrow> allowing_delivery err
      | Inr db \<Rightarrow>
          (case toISOString (nowMs - DEDUP_TTL_MS) of
             Inl err \<Rightarrow> allowing_delivery err
           | Inr since \<Rightarrow>
               (case db toAgentId since of
                  Inl err \<Rightarrow> allowing_delivery err
                | Inr rows \<Rightarrow>
                    (some_row_matches digest toAgentId
                       (computeMessageHash digest toAgentId content) rows, []))))"

text \<open>
  The words of a content: its maximal runs of code units that are not white space, in
  order.  Two contents differ only in runs of white space and in leading and trailing
  white space when they have the same words.
\<close>

function ws_tokens :: "jsstring \<Rightarrow> jsstring list" where
  "ws_tokens s =
     (case dropWhile isWhiteSpace s of
        [] \<Rightarrow> []
      | c # cs \<Rightarrow>
          (c # takeWhile (\<lambda>x. \<not> isWhiteSpace x) cs) #
          ws_tokens (dropWhile (\<lambda>x. \<not> isWhiteSpace x) cs))"
  by pat_completeness auto
termination
proof (relation "measure length", goal_cases)
  case 1
  show ?case by simp
next
  case (2 s c cs)
  have "length (dropWhile (\<lambda>x. \<not> isWhiteSpace x) cs) \<le> length cs"
    by (rule length_dropWhile_le)
  moreover have "length (c # cs) \<le> length s"
    using 2 length_dropWhile_le [of isWhiteSpace s] by simp
  ultimately show ?case by simp
qed

declare ws_tokens.simps [simp del]

fun join_space :: "jsstring list \<Rightarrow> jsstring" where
  "join_space [] = []"
| "join_space [t] = t"
| "join_space (t # ts) = t @ 0x20 # join_space ts"

text \<open>ASCII text as a JavaScript string.\<close>

definition js :: "string \<Rightarrow> jsstring" where
  "js s = map (\<lambda>c. of_nat (of_char c)) s"

text \<open>SHA-256 of an ASCII text held as a JavaScript string.\<close>

definition ascii_sha256 :: "jsstring \<Rightarrow> string" where
  "ascii_sha256 s = sha256_hex (map (\<lambda>u. char_of (unat u)) s)"

section \<open>Concrete inputs\<close>

text \<open>
  A world for the guards: the status of each agent by id, the activity records written,
  and the ids of the agents started, each in order.  The callbacks on it: the status
  update, the activity insert, the fetch from a list of agents, the start; and an
  operation that rejects and leaves the world alone.
\<close>

record directory =
  statuses :: "(string \<times> string) list"
  activities :: "activity list"
  started :: "string list"

definition setStatus :: "string \<Rightarrow> string \<Rightarrow> (directory, unit) callback" where
  "setStatus i st w =
     (Inr (), w\<lparr>statuses := map (\<lambda>e. if fst e = i then (i, st) else e) (statuses w)\<rparr>)"

definition addActivity :: "activity \<Rightarrow> (directory, unit) callback" where
  "addActivity a w = (Inr (), w\<lparr>activities := activities w @ [a]\<rparr>)"

definition fetchFrom :: "AgentLight list \<Rightarrow> string \<Rightarrow> (directory, AgentLight option) callback" where
  "fetchFrom agents i w = (Inr (find (\<lambda>a. id' a = i) agents), w)"

definition start :: "string \<Rightarrow> (directory, unit) callback" where
  "start i w = (Inr (), w\<lparr>started := started w @ [i]\<rparr>)"

definition failing :: "string \<Rightarrow> (directory, unit) callback" where
  "failing msg w = (Inl (Error msg), w)"

definition host_of :: "(string \<times> string) list \<Rightarrow> directory host" where
  "host_of sts =
     \<lparr> world = \<lparr> statuses = sts, activities = [], started = [] \<rparr>,
       calls = [], guard_console = [] \<rparr>"

definition agent_of :: "string \<Rightarrow> string \<Rightarrow> agent_status \<Rightarrow> AgentLight" where
  "agent_of i n st = \<lparr> id' = i, name = n, role = ''developer'', status = st, lastActiveAt = None \<rparr>"

text \<open>A fingerprint, its key and its record in the table, and states of the module.\<close>

definition meta0 :: DedupMeta where
  "meta0 = \<lparr> taskId = None, eventHash = ''h1'', seq = None \<rparr>"

definition key0 :: string where
  "key0 = ''a->b|task:none|hash:h1|seq:none''"

definition record0 :: "int \<Rightarrow> int \<Rightarrow> dedup_row" where
  "record0 seenAt ttlMs =
     \<lparr> row_id = ''dedup_00'', from_agent_id = ''a'', to_agent_id = ''b'', content_hash = ''h1'',
       task_id = None, seq_col = None, seen_at = seenAt, expires_at = seenAt + ttlMs \<rparr>"

definition state_of :: "DbAdapter \<Rightarrow> cache \<Rightarrow> dedup_row list \<Rightarrow> dedup_state" where
  "state_of db m tbl =
     \<lparr> db_adapter = Some db, inMemoryCache = m, message_dedup = tbl, dedup_console = [] \<rparr>"

text \<open>
  A burst of \<open>n\<close> different messages from \<open>a\<close> to \<open>b\<close> at one instant: message \<open>i\<close> has
  the content hash \<open>h\<close>\<open>i\<close> and draws the random id \<open>i\<close> (both in decimal).
\<close>

definition nth_meta :: "nat \<Rightarrow> DedupMeta" where
  "nth_meta i = \<lparr> taskId = None, eventHash = ''h'' @ show_nat i, seq = None \<rparr>"

definition nth_check :: "int \<Rightarrow> nat \<Rightarrow> dedup_op" where
  "nth_check nowMs i = Check ''a'' ''b'' (nth_meta i) ROUTING_DEDUP_TTL_MS nowMs (show_nat i)"

definition burst :: "int \<Rightarrow> nat \<Rightarrow> dedup_op list" where
  "burst nowMs n = map (nth_check nowMs) [0..<n]"

definition nth_row :: "int \<Rightarrow> nat \<Rightarrow> dedup_row" where
  "nth_row nowMs i =
     \<lparr> row_id = ''dedup_'' @ show_nat i, from_agent_id = ''a'', to_agent_id = ''b'',
       content_hash = ''h'' @ show_nat i, task_id = None, seq_col = None,
       seen_at = nowMs, expires_at = nowMs + ROUTING_DEDUP_TTL_MS \<rparr>"

definition after_burst :: "int \<Rightarrow> nat \<Rightarrow> dedup_state" where
  "after_burst nowMs n =
     state_of postgres
       (map (\<lambda>i. (buildDedupKey ''a'' ''b'' (nth_meta i), nowMs)) [0..<n])
       (map (nth_row nowMs) [0..<n])"

text \<open>Reading a decimal text back.\<close>

definition read_nat :: "string \<Rightarrow> nat" where
  "read_nat ds = foldl (\<lambda>acc c. acc * 10 + (of_char c - 48)) 0 ds"



text \<open>A delivery whose event hash is \<open>hashContent\<close> of its content.\<close>

definition content_meta :: "string \<Rightarrow> DedupMeta" where
  "content_meta content =
     \<lparr> taskId = None, eventHash = hashContent sha256_hex content, seq = None \<rparr>"

text \<open>The right half of \<open>trim\<close>.\<close>

definition rtrim :: "jsstring \<Rightarrow> jsstring" where
  "rtrim s = rev (dropWhile isWhiteSpace (rev s))"

text \<open>A race in one process: both calls at instant 0, with the random ids 00 and 01.\<close>

definition race_inputs0 :: race_inputs where
  "race_inputs0 =
     \<lparr> ri_from = ''a'', ri_to = ''b'', ri_meta = meta0, ri_ttl = ROUTING_DEDUP_TTL_MS,
       ri_now = (\<lambda>c. 0), ri_rnd = (\<lambda>c. case c of CA \<Rightarrow> ''00'' | CB \<Rightarrow> ''01''),
       ri_home = (\<lambda>c. CA) \<rparr>"

definition race0 :: race where
  "race0 = \<lparr> mem = (\<lambda>c. state_of postgres [] []), store = [], phase = (\<lambda>c. NotStarted) \<rparr>"

chapter \<open>Properties\<close>

section \<open>The stopped-agent guard\<close>

subsection \<open>safeReconcileOnStartup\<close>

text \<open>
  The loop against \<open>set_idle_in_turn\<close> on the thinking and executing agents.  When that
  resolves, the loop returns: it has added the ids of the stopped agents to \<open>skipped\<close>
  and those of the thinking and executing agents to \<open>reset\<close>, it has made the calls of
  \<open>reconcile_calls\<close> and no other, and the world is the one \<open>set_idle_in_turn\<close> leaves.
  When that rejects, the loop rejects with the same value and the same world, after an
  initial part of the calls.
\<close>

lemma is_stale_statuses: "is_stale a \<longleftrightarrow> status_str (status a) \<in> staleStatuses"
  by (cases "status a") (simp_all add: is_stale_def staleStatuses_def)

lemma reconcile_loop_run:
  "case set_idle_in_turn upd ins (filter is_stale agents) (world h) of
     (Inr u, w') \<Rightarrow>
       (\<exists>h'. reconcile_loop upd ins agents result h =
                Inr (\<lparr>reset = reset result @ map id' (filter is_stale agents),
                       skipped = skipped result @ map id' (filter (\<lambda>a. status a = Stopped) agents)\<rparr>,
                     h') \<and>
              world h' = w' \<and> calls h' = calls h @ reconcile_calls (filter is_stale agents))
   | (Inl err, w') \<Rightarrow>
       (\<exists>h' made more. reconcile_loop upd ins agents result h = Inl (err, h') \<and> world h' = w' \<and>
              calls h' = calls h @ made \<and> made @ more = reconcile_calls (filter is_stale agents))"
proof (induction agents arbitrary: result h)
  case Nil
  show ?case by (simp add: reconcile_calls_def)
next
  case (Cons agent rest)
  show ?case
  proof (cases "status agent = Stopped")
    case True
    then have ns: "\<not> is_stale agent" by (simp add: is_stale_def)
    let ?h = "console_log (SkippingStopped (name agent) (id' agent)) h"
    have w: "world ?h = world h" and c: "calls ?h = calls h" by (simp_all add: console_log_def)
    from Cons.IH [of "result\<lparr>skipped := skipped result @ [id' agent]\<rparr>" ?h]
    show ?thesis
      unfolding w c using True ns by (auto split: prod.splits sum.splits)
  next
    case False
    show ?thesis
    proof (cases "is_stale agent")
      case False
      then have "status_str (status agent) \<notin> staleStatuses" by (simp add: is_stale_statuses)
      with Cons.IH [of result h] False \<open>status agent \<noteq> Stopped\<close>
      show ?thesis by (auto split: prod.splits sum.splits)
    next
      case True
      then have st: "status_str (status agent) \<in> staleStatuses" by (simp add: is_stale_statuses)
      let ?U = "UpdateAgentStatus (id' agent) ''idle''"
      let ?I = "InsertActivity (reconcile_activity agent)"
      have rc: "reconcile_calls (filter is_stale (agent # rest)) = ?U # ?I # reconcile_calls (filter is_stale rest)"
        using True by (simp add: reconcile_calls_def)
      obtain r1 w1 where u: "upd (id' agent) ''idle'' (world h) = (r1, w1)"
        by (cases "upd (id' agent) ''idle'' (world h)")
      show ?thesis
      proof (cases r1)
        case (Inl e)
        have loop: "reconcile_loop upd ins (agent # rest) result h =
                    Inl (e, (called ?U h)\<lparr>world := w1\<rparr>)"
          using u Inl st \<open>status agent \<noteq> Stopped\<close> by (simp add: await_call_def)
        have turn: "set_idle_in_turn upd ins (filter is_stale (agent # rest)) (world h) = (Inl e, w1)"
          using u Inl True by simp
        show ?thesis
          unfolding loop turn rc by (auto simp: called_def)
      next
        case (Inr u1)
        let ?h1 = "(called ?U h)\<lparr>world := w1\<rparr>"
        obtain r2 w2 where i: "ins (reconcile_activity agent) w1 = (r2, w2)"
          by (cases "ins (reconcile_activity agent) w1")
        show ?thesis
        proof (cases r2)
          case (Inl e)
          have loop: "reconcile_loop upd ins (agent # rest) result h =
                      Inl (e, (called ?I ?h1)\<lparr>world := w2\<rparr>)"
            using u i Inl \<open>r1 = Inr u1\<close> st \<open>status agent \<noteq> Stopped\<close>
            by (simp add: await_call_def)
          have turn: "set_idle_in_turn upd ins (filter is_stale (agent # rest)) (world h) = (Inl e, w2)"
            using u i Inl \<open>r1 = Inr u1\<close> True by simp
          have "calls ((called ?I ?h1)\<lparr>world := w2\<rparr>) = calls h @ [?U, ?I]"
            by (simp add: called_def)
          then show ?thesis
            unfolding loop turn rc by (auto intro!: exI [of _ "[?U, ?I]"])
        next
          case (Inr u2)
          let ?h2 = "(called ?I ?h1)\<lparr>world := w2\<rparr>"
          have w: "world ?h2 = w2" and c: "calls ?h2 = calls h @ [?U, ?I]"
            by (simp_all add: called_def)
          have loop: "reconcile_loop upd ins (agent # rest) result h =
                      reconcile_loop upd ins rest (result\<lparr>reset := reset result @ [id' agent]\<rparr>) ?h2"
            using u i Inr \<open>r1 = Inr u1\<close> st \<open>status agent \<noteq> Stopped\<close>
            by (simp add: await_call_def)
          have turn: "set_idle_in_turn upd ins (filter is_stale (agent # rest)) (world h) =
                      set_idle_in_turn upd ins (filter is_stale rest) w2"
            using u i Inr \<open>r1 = Inr u1\<close> True by simp
          from Cons.IH [of "result\<lparr>reset := reset result @ [id' agent]\<rparr>" ?h2]
          show ?thesis
            unfolding loop turn w c rc using True \<open>status agent \<noteq> Stopped\<close>
            by (auto split: prod.splits sum.splits intro: exI [of _ "?U # ?I # made" for made])
        qed
      qed
    qed
  qed
qed

text \<open>
  Claim C7.  For every list of agents and every pair of callbacks, take the world that
  results from setting each thinking or executing agent, in the order of the list, to
  idle by \<open>updateAgentStatus(id, "idle")\<close> and then writing its activity record, and
  no other agent.  When no callback rejects, \<open>safeReconcileOnStartup\<close> returns and
  leaves that world; its \<open>skipped\<close> list is exactly the ids of the agents whose status
  is stopped, its \<open>reset\<close> list exactly the ids of the thinking and executing agents,
  and it made those calls, in that order, and no other: a stopped agent is in
  \<open>skipped\<close>, not in \<open>reset\<close>, and no callback is called for it.  When a callback
  rejects, the function rejects with the same value, and the world is the one in which
  the agents before had been set to idle and the rejecting operation had run; the
  calls made are an initial part of those calls.
\<close>

theorem reconcile_skips_stopped_resets_stale:
  "(case set_idle_in_turn updateAgentStatus insertActivity (filter is_stale agents) (world h) of
      (Inr u, w') \<Rightarrow>
        (\<exists>h'. safeReconcileOnStartup agents updateAgentStatus insertActivity h =
                 Inr (\<lparr>reset = map id' (filter is_stale agents),
                        skipped = map id' (filter (\<lambda>a. status a = Stopped) agents)\<rparr>, h') \<and>
               world h' = w' \<and>
               calls h' = calls h @ reconcile_calls (filter is_stale agents))
    | (Inl err, w') \<Rightarrow>
        (\<exists>h' made more.
               safeReconcileOnStartup agents updateAgentStatus insertActivity h = Inl (err, h') \<and>
               world h' = w' \<and>
               calls h' = calls h @ made \<and>
               made @ more = reconcile_calls (filter is_stale agents)))"
proof -
  note L = reconcile_loop_run [where upd = updateAgentStatus and ins = insertActivity
    and agents = agents and h = h and result = "\<lparr>reset = [], skipped = []\<rparr>"]
  obtain r w' where t: "set_idle_in_turn updateAgentStatus insertActivity (filter is_stale agents) (world h) = (r, w')"
    by (cases "set_idle_in_turn updateAgentStatus insertActivity (filter is_stale agents) (world h)")
  show ?thesis
  proof (cases r)
    case (Inl err)
    with L t obtain h' made more where
      "reconcile_loop updateAgentStatus insertActivity agents \<lparr>reset = [], skipped = []\<rparr> h = Inl (err, h')"
      "world h' = w'" "calls h' = calls h @ made" "made @ more = reconcile_calls (filter is_stale agents)"
      by auto
    then show ?thesis
      using t Inl by (auto simp: safeReconcileOnStartup_def)
  next
    case (Inr u)
    with L t obtain h' where
      loop: "reconcile_loop updateAgentStatus insertActivity agents \<lparr>reset = [], skipped = []\<rparr> h =
         Inr (\<lparr>reset = map id' (filter is_stale agents),
                skipped = map id' (filter (\<lambda>a. status a = Stopped) agents)\<rparr>, h')"
      and w: "world h' = w'" and c: "calls h' = calls h @ reconcile_calls (filter is_stale agents)"
      by auto
    show ?thesis
      using t Inr loop w c
      by (auto simp: safeReconcileOnStartup_def console_log_def)
  qed
qed

text \<open>
  Three agents, stopped, thinking and idle.  With callbacks that resolve, the run
  returns, the thinking agent is idle in the directory and has its activity record, and
  the stopped agent is stopped as before.  With a status update that rejects, the run
  rejects with that error after the one call.
\<close>

theorem reconcile_skips_stopped_resets_stale_witness:
  "(\<exists>h'. safeReconcileOnStartup
            [agent_of ''s'' ''Sam'' Stopped, agent_of ''t'' ''Tess'' Thinking, agent_of ''i'' ''Ira'' Idle]
            setStatus addActivity
            (host_of [(''s'', ''stopped''), (''t'', ''thinking''), (''i'', ''idle'')]) =
          Inr (\<lparr>reset = [''t''], skipped = [''s'']\<rparr>, h') \<and>
          world h' =
            \<lparr> statuses = [(''s'', ''stopped''), (''t'', ''idle''), (''i'', ''idle'')],
              activities = [reconcile_activity (agent_of ''t'' ''Tess'' Thinking)],
              started = [] \<rparr> \<and>
          calls h' =
            [UpdateAgentStatus ''t'' ''idle'',
             InsertActivity (reconcile_activity (agent_of ''t'' ''Tess'' Thinking))]) \<and>
   (\<exists>h'. safeReconcileOnStartup
            [agent_of ''s'' ''Sam'' Stopped, agent_of ''t'' ''Tess'' Thinking, agent_of ''i'' ''Ira'' Idle]
            (\<lambda>i st. failing ''no database'') addActivity
            (host_of [(''s'', ''stopped''), (''t'', ''thinking''), (''i'', ''idle'')]) =
          Inl (Error ''no database'', h') \<and>
          world h' = world (host_of [(''s'', ''stopped''), (''t'', ''thinking''), (''i'', ''idle'')]) \<and>
          (\<exists>more. calls h' @ more =
            [UpdateAgentStatus ''t'' ''idle'',
             InsertActivity (reconcile_activity (agent_of ''t'' ''Tess'' Thinking))]))"
proof -
  let ?agents = "[agent_of ''s'' ''Sam'' Stopped, agent_of ''t'' ''Tess'' Thinking, agent_of ''i'' ''Ira'' Idle]"
  let ?h = "host_of [(''s'', ''stopped''), (''t'', ''thinking''), (''i'', ''idle'')]"
  have stale: "filter is_stale ?agents = [agent_of ''t'' ''Tess'' Thinking]"
    and stopped: "filter (\<lambda>a. status a = Stopped) ?agents = [agent_of ''s'' ''Sam'' Stopped]"
    by (simp_all add: is_stale_def agent_of_def)
  have ids: "id' (agent_of ''t'' ''Tess'' Thinking) = ''t''" "id' (agent_of ''s'' ''Sam'' Stopped) = ''s''"
    by (simp_all add: agent_of_def)
  have ok: "set_idle_in_turn setStatus addActivity [agent_of ''t'' ''Tess'' Thinking] (world ?h) =
        (Inr (),
         \<lparr> statuses = [(''s'', ''stopped''), (''t'', ''idle''), (''i'', ''idle'')],
           activities = [reconcile_activity (agent_of ''t'' ''Tess'' Thinking)],
           started = [] \<rparr>)"
    by (simp add: ids setStatus_def addActivity_def host_of_def)
  have ko: "set_idle_in_turn (\<lambda>i st. failing ''no database'') addActivity
              [agent_of ''t'' ''Tess'' Thinking] (world ?h) =
        (Inl (Error ''no database''), world ?h)"
    by (simp add: failing_def)
  have calls: "reconcile_calls [agent_of ''t'' ''Tess'' Thinking] =
        [UpdateAgentStatus ''t'' ''idle'',
         InsertActivity (reconcile_activity (agent_of ''t'' ''Tess'' Thinking))]"
    by (simp add: reconcile_calls_def ids)
  from reconcile_skips_stopped_resets_stale [where updateAgentStatus = setStatus
    and insertActivity = addActivity and agents = ?agents and h = ?h]
  have a: "\<exists>h'. safeReconcileOnStartup ?agents setStatus addActivity ?h =
          Inr (\<lparr>reset = [''t''], skipped = [''s'']\<rparr>, h') \<and>
          world h' =
            \<lparr> statuses = [(''s'', ''stopped''), (''t'', ''idle''), (''i'', ''idle'')],
              activities = [reconcile_activity (agent_of ''t'' ''Tess'' Thinking)],
              started = [] \<rparr> \<and>
          calls h' =
            [UpdateAgentStatus ''t'' ''idle'',
             InsertActivity (reconcile_activity (agent_of ''t'' ''Tess'' Thinking))]"
    unfolding stale stopped ok calls by (simp add: ids host_of_def)
  from reconcile_skips_stopped_resets_stale [where updateAgentStatus = "\<lambda>i st. failing ''no database''"
    and insertActivity = addActivity and agents = ?agents and h = ?h]
  have b: "\<exists>h'. safeReconcileOnStartup ?agents (\<lambda>i st. failing ''no database'') addActivity ?h =
          Inl (Error ''no database'', h') \<and>
          world h' = world ?h \<and>
          (\<exists>more. calls h' @ more =
            [UpdateAgentStatus ''t'' ''idle'',
             InsertActivity (reconcile_activity (agent_of ''t'' ''Tess'' Thinking))])"
    unfolding stale stopped ko calls by (auto simp: host_of_def)
  from a b show ?thesis by (rule conjI)
qed

subsection \<open>guardedStartAgent\<close>

text \<open>
  Claim C8.  \<open>guardedStartAgent\<close> first fetches the agent, by the id it was given, and
  what it does then is decided by what the fetch gave.  For an agent whose status is
  not stopped it calls the start operation, once and with that id, on the world as the
  fetch left it, and its outcome is the outcome of the start operation: it resolves
  when the start resolves and rejects with the start's value when that rejects, and it
  leaves the world as the start left it.  In every other case the start operation is
  not run, so that the world stays as the fetch left it: for a stopped agent it throws
  an error whose message names the agent (name and id) and says that stopped agents
  must be manually restarted; for no agent it throws the not-found error; and a
  rejection of the fetch is thrown on.
\<close>

theorem guardedStart_iff_not_stopped:
  "(let out = guardedStartAgent agentId getAgent startAgent h;
        fetched = (\<lambda>w1. h\<lparr>world := w1, calls := calls h @ [GetAgent agentId]\<rparr>);
        begun = (\<lambda>w2. h\<lparr>world := w2, calls := calls h @ [GetAgent agentId, StartAgent agentId]\<rparr>)
    in case getAgent agentId (world h) of
         (Inl err, w1) \<Rightarrow> out = Inl (err, fetched w1)
       | (Inr None, w1) \<Rightarrow> out = Inl (Error (not_found_message agentId), fetched w1)
       | (Inr (Some a), w1) \<Rightarrow>
           if status a = Stopped
           then out = Inl (Error (refusal_message (name a) agentId), fetched w1) \<and>
                (\<exists>pre post. refusal_message (name a) agentId =
                   pre @ name a @ ''('' @ agentId @ '')'' @ post) \<and>
                (\<exists>pre post. refusal_message (name a) agentId =
                   pre @ ''Stopped agents must be manually restarted'' @ post)
           else (case startAgent agentId w1 of
                   (Inl err, w2) \<Rightarrow> out = Inl (err, begun w2)
                 | (Inr u, w2) \<Rightarrow> out = Inr (begun w2)))"
proof -
  have msg1: "\<exists>pre post. refusal_message n agentId = pre @ n @ ''('' @ agentId @ '')'' @ post" for n
    unfolding refusal_message_def
    by (rule exI [of _ "''guardedStartAgent: refusing to start stopped agent ''"]) auto
  have msg2: "\<exists>pre post. refusal_message n agentId =
                pre @ ''Stopped agents must be manually restarted'' @ post" for n
    unfolding refusal_message_def
    by (rule exI [of _ "''guardedStartAgent: refusing to start stopped agent '' @ n @ ''('' @ agentId @ ''). ''"]) auto
  show ?thesis
    unfolding Let_def
    using msg1 msg2
    by (auto simp: guardedStartAgent_def await_call_def called_def
             split: sum.splits option.splits prod.splits)
qed

text \<open>
  An agent that is stopped is not started: the call throws the refusal and the
  directory records no start.  The same agent when idle is started, once.
\<close>

theorem guardedStart_iff_not_stopped_witness:
  "guardedStartAgent ''a1'' (fetchFrom [agent_of ''a1'' ''Scout'' Stopped]) start (host_of []) =
     Inl (Error (refusal_message ''Scout'' ''a1''),
          (host_of [])\<lparr>calls := [GetAgent ''a1'']\<rparr>) \<and>
   guardedStartAgent ''a1'' (fetchFrom [agent_of ''a1'' ''Scout'' Idle]) start (host_of []) =
     Inr ((host_of [])\<lparr> world := \<lparr> statuses = [], activities = [], started = [''a1''] \<rparr>,
                          calls := [GetAgent ''a1'', StartAgent ''a1''] \<rparr>)"
proof -
  note stopped = guardedStart_iff_not_stopped
    [of "''a1''" "fetchFrom [agent_of ''a1'' ''Scout'' Stopped]" start "host_of []", unfolded Let_def]
  note idle = guardedStart_iff_not_stopped
    [of "''a1''" "fetchFrom [agent_of ''a1'' ''Scout'' Idle]" start "host_of []", unfolded Let_def]
  from stopped have a:
    "guardedStartAgent ''a1'' (fetchFrom [agent_of ''a1'' ''Scout'' Stopped]) start (host_of []) =
       Inl (Error (refusal_message ''Scout'' ''a1''), (host_of [])\<lparr>calls := [GetAgent ''a1'']\<rparr>)"
    by (simp add: fetchFrom_def agent_of_def host_of_def)
  from idle have b:
    "guardedStartAgent ''a1'' (fetchFrom [agent_of ''a1'' ''Scout'' Idle]) start (host_of []) =
       Inr ((host_of [])\<lparr> world := \<lparr> statuses = [], activities = [], started = [''a1''] \<rparr>,
                            calls := [GetAgent ''a1'', StartAgent ''a1''] \<rparr>)"
    by (simp add: fetchFrom_def start_def agent_of_def host_of_def)
  from a b show ?thesis by (rule conjI)
qed

section \<open>The in-memory cache\<close>

text \<open>
  The sweep keeps the entries that are not older than the module's TTL.  The eviction
  loop returns at once on a cache within the bound, and on a cache whose keys are not
  empty it drops the oldest entries down to the bound; so \<open>evictExpired\<close> returns.
\<close>

lemma sweep_expired_filter:
  "sweep_expired nowMs m = filter (\<lambda>e. \<not> nowMs - snd e > ROUTING_DEDUP_TTL_MS) m"
  by (induction m) auto

lemma evict_oldest_short: "length m \<le> ROUTING_DEDUP_MAX_KEYS \<Longrightarrow> evict_oldest m = Some m"
  by (subst evict_oldest.simps) simp

lemma evict_oldest_drop:
  "keys_nonempty m \<Longrightarrow> evict_oldest m = Some (drop (length m - ROUTING_DEDUP_MAX_KEYS) m)"
proof (induction m)
  case Nil
  show ?case by (subst evict_oldest.simps) simp
next
  case (Cons e rest)
  obtain k v where e: "e = (k, v)" by (cases e)
  from Cons.prems e have k: "k \<noteq> []" and rest: "keys_nonempty rest"
    by (simp_all add: keys_nonempty_def)
  show ?case
  proof (cases "length (e # rest) > ROUTING_DEDUP_MAX_KEYS")
    case True
    then have "evict_oldest (e # rest) = evict_oldest rest"
      using e k by (subst evict_oldest.simps) simp
    also have "\<dots> = Some (drop (length rest - ROUTING_DEDUP_MAX_KEYS) rest)"
      by (rule Cons.IH [OF rest])
    also have "drop (length rest - ROUTING_DEDUP_MAX_KEYS) rest =
               drop (length (e # rest) - ROUTING_DEDUP_MAX_KEYS) (e # rest)"
      using True by (simp add: Suc_diff_le)
    finally show ?thesis .
  next
    case False
    then show ?thesis by (simp add: evict_oldest_short)
  qed
qed

lemma keys_nonempty_subset: "set m' \<subseteq> set m \<Longrightarrow> keys_nonempty m \<Longrightarrow> keys_nonempty m'"
  by (auto simp: keys_nonempty_def list_all_iff)

lemma evictExpired_returns:
  assumes "keys_nonempty m"
  shows "\<exists>m'. evictExpired nowMs m = Some m' \<and> set m' \<subseteq> set m \<and> keys_nonempty m' \<and>
              length m' \<le> ROUTING_DEDUP_MAX_KEYS"
proof -
  let ?sw = "sweep_expired nowMs m"
  have sub: "set ?sw \<subseteq> set m" by (auto simp: sweep_expired_filter)
  then have kn: "keys_nonempty ?sw" using assms by (rule keys_nonempty_subset)
  let ?m' = "drop (length ?sw - ROUTING_DEDUP_MAX_KEYS) ?sw"
  have "evictExpired nowMs m = Some ?m'"
    by (simp add: evictExpired_def evict_oldest_drop [OF kn])
  moreover have "set ?m' \<subseteq> set m" using sub set_drop_subset [of _ ?sw] by blast
  moreover then have "keys_nonempty ?m'" using assms by (rule keys_nonempty_subset)
  moreover have "length ?m' \<le> ROUTING_DEDUP_MAX_KEYS" by simp
  ultimately show ?thesis by blast
qed

text \<open>\<open>Map.get\<close> and \<open>Map.set\<close> on the entries.\<close>

lemma Map_get_mem: "Map_get m key = Some v \<Longrightarrow> (key, v) \<in> set m"
  by (induction m) (auto split: if_splits)

lemma Map_get_None_iff: "Map_get m key = None \<longleftrightarrow> key \<notin> fst ` set m"
  by (induction m) (force split: if_splits)+

lemma Map_get_set_same: "Map_get (Map_set key v m) key = Some v"
  by (induction m) auto

lemma Map_get_set_other: "k \<noteq> key \<Longrightarrow> Map_get (Map_set key v m) k = Map_get m k"
  by (induction m) auto

lemma set_Map_set: "fst ` set (Map_set key v m) = insert key (fst ` set m)"
  by (induction m) (force split: if_splits)+

lemma keys_nonempty_Map_set: "key \<noteq> [] \<Longrightarrow> keys_nonempty m \<Longrightarrow> keys_nonempty (Map_set key v m)"
  by (induction m) (auto simp: keys_nonempty_def)

lemma length_Map_set:
  "length (Map_set key v m) = (if key \<in> fst ` set m then length m else Suc (length m))"
  by (induction m) (force split: if_splits)+

lemma buildDedupKey_nonempty: "buildDedupKey f t meta \<noteq> []"
  by (simp add: buildDedupKey_def)

lemma l1_miss_subset: "set m' \<subseteq> set m \<Longrightarrow> l1_miss key ttlMs nowMs m \<Longrightarrow> l1_miss key ttlMs nowMs m'"
  by (auto simp: l1_miss_def list_all_iff)

lemma l1_miss_get: "l1_miss key ttlMs nowMs m \<Longrightarrow> Map_get m key = Some seenAt \<Longrightarrow> nowMs - seenAt > ttlMs"
  by (auto simp: l1_miss_def list_all_iff dest!: Map_get_mem)

lemma absent_l1_miss: "Map_get m key = None \<Longrightarrow> l1_miss key ttlMs nowMs m"
  by (auto simp: Map_get_None_iff l1_miss_def list_all_iff)

section \<open>checkAndRecordDedup\<close>

text \<open>With no fresh entry for the key, a call is its L2 part on the evicted cache.\<close>

lemma check_miss_is_L2:
  assumes "keys_nonempty (inMemoryCache s)"
    and "l1_miss (buildDedupKey f t meta) ttlMs nowMs (inMemoryCache s)"
  shows "\<exists>m. evictExpired nowMs (inMemoryCache s) = Some m \<and> set m \<subseteq> set (inMemoryCache s) \<and>
             keys_nonempty m \<and> length m \<le> ROUTING_DEDUP_MAX_KEYS \<and>
             checkAndRecordDedup f t meta ttlMs nowMs rnd s =
               Some (checkAndRecord_L2 f t meta ttlMs nowMs rnd (buildDedupKey f t meta)
                       (s\<lparr>inMemoryCache := m\<rparr>))"
proof -
  from evictExpired_returns [OF assms(1)] obtain m where
    m: "evictExpired nowMs (inMemoryCache s) = Some m" "set m \<subseteq> set (inMemoryCache s)"
       "keys_nonempty m" "length m \<le> ROUTING_DEDUP_MAX_KEYS"
    by blast
  have miss: "l1_miss (buildDedupKey f t meta) ttlMs nowMs m"
    using m(2) assms(2) by (rule l1_miss_subset)
  have "checkAndRecordDedup f t meta ttlMs nowMs rnd s =
          Some (checkAndRecord_L2 f t meta ttlMs nowMs rnd (buildDedupKey f t meta)
                  (s\<lparr>inMemoryCache := m\<rparr>))"
    using m(1) l1_miss_get [OF miss]
    by (auto simp: checkAndRecordDedup_def Let_def split: option.splits)
  with m show ?thesis by blast
qed

text \<open>
  The parameters of a call's \<open>INSERT\<close>.  When the store takes them, the expiry is a
  time value, so that \<open>toISOString\<close> has returned.
\<close>

lemma insert_of_fields:
  "p_id (insert_of rnd f t meta e) = ''dedup_'' @ rnd"
  "p_from (insert_of rnd f t meta e) = f"
  "p_to (insert_of rnd f t meta e) = t"
  "p_hash (insert_of rnd f t meta e) = eventHash meta"
  "p_task (insert_of rnd f t meta e) = taskId meta"
  "p_seq (insert_of rnd f t meta e) = seq meta"
  "p_expires (insert_of rnd f t meta e) = e"
  by (simp_all add: insert_of_def)

lemma pg_timestamptz_valid: "pg_timestamptz t \<Longrightarrow> valid_time t"
  by (simp add: pg_timestamptz_def valid_time_def)

lemma pg_accepts_expires: "pg_accepts (insert_of rnd f t meta e) \<Longrightarrow> toISOString e = Inr e"
  by (simp add: pg_accepts_def insert_of_fields toISOString_def pg_timestamptz_valid)

text \<open>The definitions a run on a concrete state unfolds.\<close>

lemmas eval_defs =
  checkAndRecordDedup_def checkAndRecord_L2_def evictExpired_def evict_oldest_short
  ROUTING_DEDUP_MAX_KEYS_def ROUTING_DEDUP_TTL_MS_def getDb_def toISOString_def valid_time_def
  buildDedupKey_def state_of_def meta0_def key0_def record0_def
  postgres_def pg_insert_def same_route_def rejecting_def insert_of_def
  pg_accepts_def pg_text_def pg_null_or_text_def pg_timestamptz_def pg_index_entry_def
  not_duplicate_def db_conflict_def

lemmas run_defs =
  pruneExpiredDedup_def loadStartupDedupGuard_def pg_delete_def pg_select_def restart_def
  l1_hit_def has_record_def id_taken_def keys_nonempty_def l1_miss_def within_window_def

subsection \<open>Fail open\<close>

text \<open>
  A call for a key that has no entry in the fast tier, when the registered store
  rejects the \<open>INSERT\<close>.  The \<open>catch\<close> reads the message of the rejection before
  anything else.  For a rejection with a message to read (every \<open>Error\<close>, and every
  value other than \<open>undefined\<close> and \<open>null\<close>) the call returns \<open>{isDuplicate: false}\<close>
  and sets the fast-tier entry of the key to the current time.  For a rejection with
  \<open>undefined\<close> or \<open>null\<close> the read throws a \<open>TypeError\<close>: the call throws it, and the
  key has no entry still.
\<close>

lemma store_error_fails_open:
  assumes "db_adapter s = Some db"
    and "q_insert db (insert_of rnd f t meta (nowMs + ttlMs)) nowMs (message_dedup s) = Inl err"
    and "message_of err = Inr msg"
    and "Map_get (inMemoryCache s) (buildDedupKey f t meta) = None"
    and "keys_nonempty (inMemoryCache s)"
    and "valid_time (nowMs + ttlMs)"
  shows "\<exists>s'. checkAndRecordDedup f t meta ttlMs nowMs rnd s = Some (Inr not_duplicate, s') \<and>
              Map_get (inMemoryCache s') (buildDedupKey f t meta) = Some nowMs \<and>
              message_dedup s' = message_dedup s"
proof -
  let ?key = "buildDedupKey f t meta"
  from check_miss_is_L2 [OF assms(5) absent_l1_miss [OF assms(4), of ttlMs nowMs], where rnd = rnd]
  obtain m where run: "checkAndRecordDedup f t meta ttlMs nowMs rnd s =
      Some (checkAndRecord_L2 f t meta ttlMs nowMs rnd ?key (s\<lparr>inMemoryCache := m\<rparr>))"
    by blast
  have "checkAndRecord_L2 f t meta ttlMs nowMs rnd ?key (s\<lparr>inMemoryCache := m\<rparr>) =
          (Inr not_duplicate,
           s\<lparr> inMemoryCache := Map_set ?key nowMs m,
              dedup_console := dedup_console s @ [DbCheckFailed msg] \<rparr>)"
    using assms(1,2,3,6) by (simp add: checkAndRecord_L2_def getDb_def toISOString_def)
  with run show ?thesis by (simp add: Map_get_set_same)
qed

lemma store_error_throws:
  assumes "db_adapter s = Some db"
    and "q_insert db (insert_of rnd f t meta (nowMs + ttlMs)) nowMs (message_dedup s) = Inl err"
    and "message_of err = Inl thrown"
    and "Map_get (inMemoryCache s) (buildDedupKey f t meta) = None"
    and "keys_nonempty (inMemoryCache s)"
    and "valid_time (nowMs + ttlMs)"
  shows "\<exists>s'. checkAndRecordDedup f t meta ttlMs nowMs rnd s = Some (Inl thrown, s') \<and>
              Map_get (inMemoryCache s') (buildDedupKey f t meta) = None \<and>
              message_dedup s' = message_dedup s"
proof -
  let ?key = "buildDedupKey f t meta"
  from check_miss_is_L2 [OF assms(5) absent_l1_miss [OF assms(4), of ttlMs nowMs], where rnd = rnd]
  obtain m where sub: "set m \<subseteq> set (inMemoryCache s)"
    and run: "checkAndRecordDedup f t meta ttlMs nowMs rnd s =
      Some (checkAndRecord_L2 f t meta ttlMs nowMs rnd ?key (s\<lparr>inMemoryCache := m\<rparr>))"
    by blast
  from sub assms(4) have none: "Map_get m ?key = None"
    by (auto simp: Map_get_None_iff)
  have "checkAndRecord_L2 f t meta ttlMs nowMs rnd ?key (s\<lparr>inMemoryCache := m\<rparr>) =
          (Inl thrown, s\<lparr>inMemoryCache := m\<rparr>)"
    using assms(1,2,3,6) by (simp add: checkAndRecord_L2_def getDb_def toISOString_def)
  with run none show ?thesis by simp
qed

text \<open>
  Claim C5 at a store that rejects with \<open>undefined\<close>.  The adapter is registered, the
  fast tier is empty, and every query of the store rejects; the call at 1000 throws a
  \<open>TypeError\<close> to its caller and leaves the fast tier empty, where the claim says that
  it returns \<open>{isDuplicate: false}\<close>, warms the fast tier and does not raise.  So it
  is for \<open>null\<close>.  With a store that rejects with an \<open>Error\<close> the same call does as
  the claim says.
\<close>

theorem rejection_without_message_is_thrown:
  "checkAndRecordDedup ''a'' ''b'' meta0 ROUTING_DEDUP_TTL_MS 1000 ''00''
     (state_of (rejecting Undefined) [] []) =
   Some (Inl (TypeError (cannot_read ''undefined'')), state_of (rejecting Undefined) [] []) \<and>
   checkAndRecordDedup ''a'' ''b'' meta0 ROUTING_DEDUP_TTL_MS 1000 ''00''
     (state_of (rejecting Null) [] []) =
   Some (Inl (TypeError (cannot_read ''null'')), state_of (rejecting Null) [] []) \<and>
   checkAndRecordDedup ''a'' ''b'' meta0 ROUTING_DEDUP_TTL_MS 1000 ''00''
     (state_of (rejecting (Error ''connection refused'')) [] []) =
   Some (Inr not_duplicate,
         (state_of (rejecting (Error ''connection refused'')) [] [])
           \<lparr> inMemoryCache := [(key0, 1000)],
              dedup_console := [DbCheckFailed (Some ''connection refused'')] \<rparr>)"
  by (simp add: eval_defs)

text \<open>
  An expiry that the store does not read.  With a TTL that puts the expiry at the first
  instant of the year 10000, PostgreSQL rejects the \<open>INSERT\<close>: the call fails open,
  no row is written, and after a restart the same call is not a duplicate either.
\<close>

lemma unreadable_expiry_fails_open:
  "checkAndRecordDedup ''a'' ''b'' meta0 253402300800000 0 ''00'' (state_of postgres [] []) =
   Some (Inr not_duplicate,
         (state_of postgres [] [])
           \<lparr> inMemoryCache := [(key0, 0)],
              dedup_console :=
                [DbCheckFailed (Some ''a parameter of the statement is not a value of its column type'')] \<rparr>) \<and>
   map_option fst
     (checkAndRecordDedup ''a'' ''b'' meta0 253402300800000 0 ''01''
        (restart ((state_of postgres [] [])
           \<lparr> inMemoryCache := [(key0, 0)],
              dedup_console :=
                [DbCheckFailed (Some ''a parameter of the statement is not a value of its column type'')] \<rparr>))) =
   Some (Inr not_duplicate)"
  by (simp add: eval_defs restart_def)

subsection \<open>A conflict in the durable tier\<close>

text \<open>
  With a record of the identity in the table and no fresh entry in the fast tier, the
  insert conflicts: the call returns duplicate with the reason of the durable tier,
  leaves the table as it was, and sets the fast-tier entry of the key to \<open>nowMs\<close>.
\<close>

lemma conflict_sets_now:
  assumes "db_adapter s = Some postgres"
    and "has_record f t (eventHash meta) (message_dedup s)"
    and "l1_miss (buildDedupKey f t meta) ttlMs nowMs (inMemoryCache s)"
    and "keys_nonempty (inMemoryCache s)"
    and "pg_accepts (insert_of rnd f t meta (nowMs + ttlMs))"
  shows "\<exists>s'. checkAndRecordDedup f t meta ttlMs nowMs rnd s = Some (Inr db_conflict, s') \<and>
              Map_get (inMemoryCache s') (buildDedupKey f t meta) = Some nowMs \<and>
              message_dedup s' = message_dedup s"
proof -
  let ?key = "buildDedupKey f t meta"
  from check_miss_is_L2 [OF assms(4) assms(3), where rnd = rnd]
  obtain m where run: "checkAndRecordDedup f t meta ttlMs nowMs rnd s =
      Some (checkAndRecord_L2 f t meta ttlMs nowMs rnd ?key (s\<lparr>inMemoryCache := m\<rparr>))"
    by blast
  have "checkAndRecord_L2 f t meta ttlMs nowMs rnd ?key (s\<lparr>inMemoryCache := m\<rparr>) =
          (Inr db_conflict,
           s\<lparr> inMemoryCache := Map_set ?key nowMs m, message_dedup := message_dedup s \<rparr>)"
    using assms(1,2,5) pg_accepts_expires [OF assms(5)]
    by (simp add: checkAndRecord_L2_def getDb_def postgres_def pg_insert_def
          has_record_def insert_of_fields)
  with run show ?thesis by (simp add: Map_get_set_same)
qed

text \<open>
  Claim C2 at a live record.  A record seen at 1000 is in the table and expires 72 h
  later, the fast tier is empty, and the call at 5000 is a duplicate by the conflict in
  the durable tier, with that reason.  The fast-tier entry it leaves is 5000, the
  current time, where the claim (and the comment of the cache, "key -> seenAt ms", and
  the startup guard, which warms with the \<open>seen_at\<close> of the row) says 1000, the
  \<open>seen_at\<close> of the record.
\<close>

theorem conflict_does_not_warm_with_seenAt:
  "checkAndRecordDedup ''a'' ''b'' meta0 ROUTING_DEDUP_TTL_MS 5000 ''01''
     (state_of postgres [] [record0 1000 ROUTING_DEDUP_TTL_MS]) =
   Some (Inr db_conflict,
         (state_of postgres [] [record0 1000 ROUTING_DEDUP_TTL_MS])\<lparr>inMemoryCache := [(key0, 5000)]\<rparr>) \<and>
   expires_at (record0 1000 ROUTING_DEDUP_TTL_MS) > 5000 \<and>
   Map_get [(key0, 5000)] key0 \<noteq> Some (seen_at (record0 1000 ROUTING_DEDUP_TTL_MS))"
  by (simp add: eval_defs)

text \<open>
  What the entry at the current time does to the window.  The record was seen at 0
  with the TTL of 72 h.  After a restart the check at 71 h is a duplicate by conflict
  and warms the fast tier with 71 h; the record expires at 72 h and is pruned; the
  check at 73 h is a duplicate still, by the fast tier.  When the startup guard has
  warmed the fast tier instead, with the \<open>seen_at\<close> of the record, the check at 73 h is
  not a duplicate.
\<close>

lemma conflict_warming_slides_window:
  "run_ops [Check ''a'' ''b'' meta0 ROUTING_DEDUP_TTL_MS 255600000 ''01'', Prune 261000000]
     (state_of postgres [] [record0 0 ROUTING_DEDUP_TTL_MS]) =
   Some (state_of postgres [(key0, 255600000)] []) \<and>
   checkAndRecordDedup ''a'' ''b'' meta0 ROUTING_DEDUP_TTL_MS 262800000 ''02''
     (state_of postgres [(key0, 255600000)] []) =
   Some (Inr (l1_hit 262800000 255600000), state_of postgres [(key0, 255600000)] []) \<and>
   run_ops [LoadGuard ROUTING_DEDUP_TTL_MS 255600000, Prune 261000000]
     (state_of postgres [] [record0 0 ROUTING_DEDUP_TTL_MS]) =
   Some ((state_of postgres [(key0, 0)] [])
           \<lparr>dedup_console := [StartupGuardLoaded 1 ROUTING_DEDUP_TTL_MS]\<rparr>) \<and>
   map_option fst
     (checkAndRecordDedup ''a'' ''b'' meta0 ROUTING_DEDUP_TTL_MS 262800000 ''02''
        ((state_of postgres [(key0, 0)] [])
           \<lparr>dedup_console := [StartupGuardLoaded 1 ROUTING_DEDUP_TTL_MS]\<rparr>)) =
   Some (Inr not_duplicate)"
  by (simp add: eval_defs pruneExpiredDedup_def loadStartupDedupGuard_def pg_delete_def
        pg_select_def project_row_def truthy_text_def)

subsection \<open>An expired record\<close>

text \<open>
  Claim C1 at T = 72 h 1 min.  The only record of the fingerprint was seen at 0 with
  the TTL of 72 h, so it expired a minute ago and its \<open>seen_at\<close> is older than
  \<open>now - TTL\<close>; the fast tier is empty.  The unique index does not look at
  \<open>expires_at\<close>: the insert conflicts with the expired record and the call returns
  duplicate, where the claim (and the function's own comment) says non-duplicate.
\<close>

theorem expired_record_still_conflicts:
  "checkAndRecordDedup ''a'' ''b'' meta0 ROUTING_DEDUP_TTL_MS (ROUTING_DEDUP_TTL_MS + 60000) ''01''
     (state_of postgres [] [record0 0 ROUTING_DEDUP_TTL_MS]) =
   Some (Inr db_conflict,
         (state_of postgres [] [record0 0 ROUTING_DEDUP_TTL_MS])
           \<lparr>inMemoryCache := [(key0, ROUTING_DEDUP_TTL_MS + 60000)]\<rparr>) \<and>
   seen_at (record0 0 ROUTING_DEDUP_TTL_MS) < (ROUTING_DEDUP_TTL_MS + 60000) - ROUTING_DEDUP_TTL_MS \<and>
   expires_at (record0 0 ROUTING_DEDUP_TTL_MS) < ROUTING_DEDUP_TTL_MS + 60000"
  by (simp add: eval_defs)

section \<open>Runs of the module\<close>

text \<open>
  While the record is in the table and no step runs after its expiry, every step
  returns and keeps the record: a check adds rows at most, the startup guard reads, and
  \<open>pruneExpiredDedup\<close> deletes expired rows only.
\<close>

lemma keys_nonempty_load_rows: "keys_nonempty m \<Longrightarrow> keys_nonempty (load_rows rows m)"
  by (induction rows arbitrary: m) (simp_all add: keys_nonempty_Map_set buildDedupKey_nonempty)

lemma recorded_L2:
  assumes "recorded f t h T s"
  shows "recorded f t h T (snd (checkAndRecord_L2 f' t' meta ttlMs nowMs rnd (buildDedupKey f' t' meta) s))"
  using assms
  by (auto simp: recorded_def checkAndRecord_L2_def getDb_def toISOString_def postgres_def
        pg_insert_def keys_nonempty_Map_set buildDedupKey_nonempty
        split: sum.splits prod.splits if_splits)

lemma recorded_cache: "recorded f t h T s \<Longrightarrow> keys_nonempty m \<Longrightarrow> recorded f t h T (s\<lparr>inMemoryCache := m\<rparr>)"
  by (simp add: recorded_def)

lemma recorded_check:
  assumes "recorded f t h T s"
  shows "\<exists>out s'. checkAndRecordDedup f' t' meta ttlMs nowMs rnd s = Some (out, s') \<and> recorded f t h T s'"
proof -
  from assms have kn: "keys_nonempty (inMemoryCache s)" by (simp add: recorded_def)
  from evictExpired_returns [OF kn] obtain m where
    m: "evictExpired nowMs (inMemoryCache s) = Some m" "keys_nonempty m" by blast
  have r1: "recorded f t h T (s\<lparr>inMemoryCache := m\<rparr>)" using assms m(2) by (rule recorded_cache)
  note r2 = recorded_L2 [OF r1, of f' t' meta ttlMs nowMs rnd]
  show ?thesis
    using m(1) r1 r2
    by (cases "checkAndRecord_L2 f' t' meta ttlMs nowMs rnd (buildDedupKey f' t' meta) (s\<lparr>inMemoryCache := m\<rparr>)")
       (auto simp: checkAndRecordDedup_def Let_def split: option.splits)
qed

lemma recorded_step:
  assumes "recorded f t h T s" and "op_time x \<le> T"
  shows "\<exists>s'. step x s = Some s' \<and> recorded f t h T s'"
proof (cases x)
  case (Check f' t' meta ttlMs nowMs rnd)
  with recorded_check [OF assms(1), of f' t' meta ttlMs nowMs rnd] show ?thesis by auto
next
  case (LoadGuard windowMs nowMs)
  with assms(1) show ?thesis
    by (auto simp: recorded_def loadStartupDedupGuard_def getDb_def postgres_def pg_select_def
          keys_nonempty_load_rows split: sum.splits if_splits)
next
  case (Prune nowMs)
  with assms show ?thesis
    by (auto simp: recorded_def pruneExpiredDedup_def getDb_def postgres_def pg_delete_def
          list_ex_iff)
qed

lemma recorded_run:
  "recorded f t h T s \<Longrightarrow> list_all (\<lambda>x. op_time x \<le> T) xs \<Longrightarrow>
   \<exists>s'. run_ops xs s = Some s' \<and> recorded f t h T s'"
proof (induction xs arbitrary: s)
  case Nil
  then show ?case by simp
next
  case (Cons x xs)
  from Cons.prems have "op_time x \<le> T" and rest: "list_all (\<lambda>x. op_time x \<le> T) xs" by simp_all
  from recorded_step [OF Cons.prems(1) this(1)] obtain s1 where
    s1: "step x s = Some s1" "recorded f t h T s1" by blast
  from Cons.IH [OF s1(2) rest] s1(1) show ?case by simp
qed

text \<open>With the record in the table, a call for its route is a duplicate.\<close>

lemma recorded_duplicate:
  assumes "recorded f t (eventHash meta) T s"
    and "pg_accepts (insert_of rnd f t meta (nowMs + ttlMs))"
  shows "\<exists>r s'. checkAndRecordDedup f t meta ttlMs nowMs rnd s = Some (Inr r, s') \<and> isDuplicate r"
proof -
  from assms(1) have kn: "keys_nonempty (inMemoryCache s)" by (simp add: recorded_def)
  from evictExpired_returns [OF kn] obtain m where
    m: "evictExpired nowMs (inMemoryCache s) = Some m" by blast
  have L2: "checkAndRecord_L2 f t meta ttlMs nowMs rnd (buildDedupKey f t meta) (s\<lparr>inMemoryCache := m\<rparr>) =
          (Inr db_conflict,
           s\<lparr> inMemoryCache := Map_set (buildDedupKey f t meta) nowMs m, message_dedup := message_dedup s \<rparr>)"
    using assms pg_accepts_expires [OF assms(2)]
    by (auto simp: recorded_def checkAndRecord_L2_def getDb_def postgres_def
          pg_insert_def list_ex_iff insert_of_fields)
  show ?thesis
    using m L2
    by (auto simp: checkAndRecordDedup_def Let_def l1_hit_def db_conflict_def split: option.splits)
qed

text \<open>
  A call whose statement PostgreSQL takes, with an id that is not taken, and that is
  not a duplicate has made the record; from a state with no record the first call is
  such a call.
\<close>

lemma not_duplicate_recorded:
  assumes "db_adapter s = Some postgres" and "\<not> id_taken rnd (message_dedup s)"
    and "pg_accepts (insert_of rnd f t meta (nowMs + ttlMs))"
    and "checkAndRecordDedup f t meta ttlMs nowMs rnd s = Some (Inr r, s')" and "\<not> isDuplicate r"
  shows "db_adapter s' = Some postgres \<and>
         list_ex (\<lambda>r. same_route f t (eventHash meta) r \<and> nowMs + ttlMs \<le> expires_at r) (message_dedup s')"
proof -
  from assms(4) obtain m where m: "evictExpired nowMs (inMemoryCache s) = Some m"
    by (auto simp: checkAndRecordDedup_def Let_def split: option.splits)
  from assms(4,5) m have L2:
    "checkAndRecord_L2 f t meta ttlMs nowMs rnd (buildDedupKey f t meta) (s\<lparr>inMemoryCache := m\<rparr>) = (Inr r, s')"
    by (auto simp: checkAndRecordDedup_def Let_def l1_hit_def split: option.splits if_splits)
  from L2 assms(1,2,3,5) pg_accepts_expires [OF assms(3)] show ?thesis
    by (auto simp: checkAndRecord_L2_def getDb_def postgres_def pg_insert_def
          id_taken_def db_conflict_def same_route_def insert_of_fields
          split: sum.splits prod.splits if_splits)
qed

lemma first_call_records:
  assumes "db_adapter s = Some postgres"
    and "keys_nonempty (inMemoryCache s)"
    and "Map_get (inMemoryCache s) (buildDedupKey f t meta) = None"
    and "\<not> has_record f t (eventHash meta) (message_dedup s)"
    and "\<not> id_taken rnd (message_dedup s)"
    and "pg_accepts (insert_of rnd f t meta (nowMs + ttlMs))"
  shows "\<exists>s'. checkAndRecordDedup f t meta ttlMs nowMs rnd s = Some (Inr not_duplicate, s') \<and>
              recorded f t (eventHash meta) (nowMs + ttlMs) s'"
proof -
  let ?key = "buildDedupKey f t meta"
  from check_miss_is_L2 [OF assms(2) absent_l1_miss [OF assms(3), of ttlMs nowMs], where rnd = rnd]
  obtain m where kn: "keys_nonempty m" and run: "checkAndRecordDedup f t meta ttlMs nowMs rnd s =
      Some (checkAndRecord_L2 f t meta ttlMs nowMs rnd ?key (s\<lparr>inMemoryCache := m\<rparr>))"
    by blast
  obtain out s' where L2: "checkAndRecord_L2 f t meta ttlMs nowMs rnd ?key (s\<lparr>inMemoryCache := m\<rparr>) = (out, s')"
    by (cases "checkAndRecord_L2 f t meta ttlMs nowMs rnd ?key (s\<lparr>inMemoryCache := m\<rparr>)")
  from L2 assms(1,4,5,6) kn pg_accepts_expires [OF assms(6)]
  have "out = Inr not_duplicate \<and> recorded f t (eventHash meta) (nowMs + ttlMs) s'"
    by (auto simp: checkAndRecord_L2_def getDb_def postgres_def pg_insert_def
          id_taken_def has_record_def recorded_def same_route_def keys_nonempty_Map_set
          buildDedupKey_nonempty insert_of_fields)
  with run L2 show ?thesis by simp
qed

lemma window_ops: "list_all (\<lambda>x. within_window t0 ttlMs (op_time x)) xs \<Longrightarrow>
                   list_all (\<lambda>x. op_time x \<le> t0 + ttlMs) xs"
  by (auto simp: list_all_iff within_window_def)

lemma first_call_example:
  "checkAndRecordDedup ''a'' ''b'' meta0 ROUTING_DEDUP_TTL_MS 0 ''00'' (state_of postgres [] []) =
   Some (Inr not_duplicate,
         (state_of postgres [] [])
           \<lparr> inMemoryCache := [(key0, 0)], message_dedup := [record0 0 ROUTING_DEDUP_TTL_MS] \<rparr>)"
  by (simp add: eval_defs)

subsection \<open>Idempotence\<close>

text \<open>
  Claim C3.  Fix \<open>fromAgentId\<close>, \<open>toAgentId\<close>, the content (its hash and correlation
  fields) and the TTL.  From a state with no record of the fingerprint (no cache entry
  for its key, no row of its identity in the table), with PostgreSQL as the store, the
  first \<open>checkAndRecordDedup\<close> returns non-duplicate; and after any operations of the
  module within the TTL window (other checks, the same check again, the startup guard,
  prunes), every call with the same inputs within the window returns duplicate.  The
  store takes the statement of the first call and of the later one: their texts have
  no NUL and fit the index, their expiry instants are in the years 1 to 9999; and the
  id of the first call is not taken.
\<close>

theorem first_is_new_then_duplicates:
  assumes "db_adapter s0 = Some postgres"
    and "keys_nonempty (inMemoryCache s0)"
    and "Map_get (inMemoryCache s0) (buildDedupKey f t meta) = None"
    and "\<not> has_record f t (eventHash meta) (message_dedup s0)"
    and "\<not> id_taken rnd0 (message_dedup s0)"
    and "pg_accepts (insert_of rnd0 f t meta (t0 + ttlMs))"
  shows "\<exists>s1. checkAndRecordDedup f t meta ttlMs t0 rnd0 s0 = Some (Inr not_duplicate, s1) \<and>
           (\<forall>xs t' rnd'.
              list_all (\<lambda>x. within_window t0 ttlMs (op_time x)) xs \<and>
              within_window t0 ttlMs t' \<and> pg_accepts (insert_of rnd' f t meta (t' + ttlMs)) \<longrightarrow>
              (\<exists>s2 r s3. run_ops xs s1 = Some s2 \<and>
                 checkAndRecordDedup f t meta ttlMs t' rnd' s2 = Some (Inr r, s3) \<and> isDuplicate r))"
proof -
  from first_call_records [OF assms] obtain s1 where
    first: "checkAndRecordDedup f t meta ttlMs t0 rnd0 s0 = Some (Inr not_duplicate, s1)"
    and rec: "recorded f t (eventHash meta) (t0 + ttlMs) s1"
    by blast
  have "\<exists>s2 r s3. run_ops xs s1 = Some s2 \<and>
          checkAndRecordDedup f t meta ttlMs t' rnd' s2 = Some (Inr r, s3) \<and> isDuplicate r"
    if xs: "list_all (\<lambda>x. within_window t0 ttlMs (op_time x)) xs"
      and v: "pg_accepts (insert_of rnd' f t meta (t' + ttlMs))"
    for xs t' rnd'
  proof -
    from recorded_run [OF rec window_ops [OF xs]] obtain s2 where
      s2: "run_ops xs s1 = Some s2" "recorded f t (eventHash meta) (t0 + ttlMs) s2" by blast
    from recorded_duplicate [OF s2(2) v] s2(1) show ?thesis by blast
  qed
  with first show ?thesis by blast
qed

text \<open>
  The first delivery at 0 with the TTL of 72 h; then a prune and the startup guard, and
  the same delivery at 2000.
\<close>

theorem first_is_new_then_duplicates_witness:
  "\<exists>s1 s2 r s3.
     checkAndRecordDedup ''a'' ''b'' meta0 ROUTING_DEDUP_TTL_MS 0 ''00'' (state_of postgres [] []) =
       Some (Inr not_duplicate, s1) \<and>
     run_ops [Prune 1000, LoadGuard ROUTING_DEDUP_TTL_MS 1000] s1 = Some s2 \<and>
     checkAndRecordDedup ''a'' ''b'' meta0 ROUTING_DEDUP_TTL_MS 2000 ''01'' s2 = Some (Inr r, s3) \<and>
     isDuplicate r"
proof -
  have "\<exists>s1. checkAndRecordDedup ''a'' ''b'' meta0 ROUTING_DEDUP_TTL_MS 0 ''00'' (state_of postgres [] []) =
            Some (Inr not_duplicate, s1) \<and>
           (\<forall>xs t' rnd'.
              list_all (\<lambda>x. within_window 0 ROUTING_DEDUP_TTL_MS (op_time x)) xs \<and>
              within_window 0 ROUTING_DEDUP_TTL_MS t' \<and>
              pg_accepts (insert_of rnd' ''a'' ''b'' meta0 (t' + ROUTING_DEDUP_TTL_MS)) \<longrightarrow>
              (\<exists>s2 r s3. run_ops xs s1 = Some s2 \<and>
                 checkAndRecordDedup ''a'' ''b'' meta0 ROUTING_DEDUP_TTL_MS t' rnd' s2 = Some (Inr r, s3) \<and>
                 isDuplicate r))"
    by (rule first_is_new_then_duplicates)
       (simp_all add: state_of_def run_defs meta0_def ROUTING_DEDUP_TTL_MS_def insert_of_def
          pg_accepts_def pg_text_def pg_null_or_text_def pg_timestamptz_def pg_index_entry_def)
  then obtain s1 where
    a: "checkAndRecordDedup ''a'' ''b'' meta0 ROUTING_DEDUP_TTL_MS 0 ''00'' (state_of postgres [] []) =
            Some (Inr not_duplicate, s1)"
    and b: "\<And>xs t' rnd'.
              list_all (\<lambda>x. within_window 0 ROUTING_DEDUP_TTL_MS (op_time x)) xs \<and>
              within_window 0 ROUTING_DEDUP_TTL_MS t' \<and>
              pg_accepts (insert_of rnd' ''a'' ''b'' meta0 (t' + ROUTING_DEDUP_TTL_MS)) \<Longrightarrow>
              (\<exists>s2 r s3. run_ops xs s1 = Some s2 \<and>
                 checkAndRecordDedup ''a'' ''b'' meta0 ROUTING_DEDUP_TTL_MS t' rnd' s2 = Some (Inr r, s3) \<and>
                 isDuplicate r)"
    by blast
  have "\<exists>s2 r s3. run_ops [Prune 1000, LoadGuard ROUTING_DEDUP_TTL_MS 1000] s1 = Some s2 \<and>
          checkAndRecordDedup ''a'' ''b'' meta0 ROUTING_DEDUP_TTL_MS 2000 ''01'' s2 = Some (Inr r, s3) \<and>
          isDuplicate r"
    by (rule b)
       (simp add: within_window_def ROUTING_DEDUP_TTL_MS_def meta0_def insert_of_def
          pg_accepts_def pg_text_def pg_null_or_text_def pg_timestamptz_def pg_index_entry_def)
  with a show ?thesis by blast
qed

subsection \<open>Restart safety\<close>

text \<open>
  Claim C4.  A \<open>checkAndRecordDedup\<close> whose statement PostgreSQL took (texts without
  NUL that fit the index, an expiry in the years 1 to 9999, an id that was not taken)
  returned non-duplicate: it has recorded the fingerprint.  Empty the fast tier (a
  restart).  The same call within the TTL window, its statement taken as well, returns
  duplicate by the conflict in the durable tier; and it returns duplicate as well when
  startup operations within the window (a prune, the startup guard) ran between the
  restart and the call.
\<close>

theorem duplicate_after_restart:
  assumes "db_adapter s0 = Some postgres"
    and "\<not> id_taken rnd0 (message_dedup s0)"
    and "pg_accepts (insert_of rnd0 f t meta (t0 + ttlMs))"
    and "checkAndRecordDedup f t meta ttlMs t0 rnd0 s0 = Some (Inr r, s1)"
    and "\<not> isDuplicate r"
    and "within_window t0 ttlMs t'"
    and "pg_accepts (insert_of rnd' f t meta (t' + ttlMs))"
    and "list_all (\<lambda>x. within_window t0 ttlMs (op_time x)) startup"
  shows "(\<exists>s3. checkAndRecordDedup f t meta ttlMs t' rnd' (restart s1) = Some (Inr db_conflict, s3)) \<and>
         (\<exists>s2 r' s3. run_ops startup (restart s1) = Some s2 \<and>
            checkAndRecordDedup f t meta ttlMs t' rnd' s2 = Some (Inr r', s3) \<and> isDuplicate r')"
proof -
  from not_duplicate_recorded [OF assms(1-5)]
  have rec: "recorded f t (eventHash meta) (t0 + ttlMs) (restart s1)"
    by (simp add: recorded_def restart_def keys_nonempty_def)
  then have hr: "has_record f t (eventHash meta) (message_dedup (restart s1))"
    by (auto simp: recorded_def has_record_def list_ex_iff)
  from rec have db: "db_adapter (restart s1) = Some postgres" by (simp add: recorded_def)
  have "l1_miss (buildDedupKey f t meta) ttlMs t' (inMemoryCache (restart s1))"
    and "keys_nonempty (inMemoryCache (restart s1))"
    by (simp_all add: restart_def l1_miss_def keys_nonempty_def)
  from conflict_sets_now [OF db hr this assms(7)]
  have a: "\<exists>s3. checkAndRecordDedup f t meta ttlMs t' rnd' (restart s1) = Some (Inr db_conflict, s3)"
    by blast
  from recorded_run [OF rec window_ops [OF assms(8)]] obtain s2 where
    s2: "run_ops startup (restart s1) = Some s2" "recorded f t (eventHash meta) (t0 + ttlMs) s2" by blast
  from recorded_duplicate [OF s2(2) assms(7)] s2(1)
  have b: "\<exists>s2 r' s3. run_ops startup (restart s1) = Some s2 \<and>
            checkAndRecordDedup f t meta ttlMs t' rnd' s2 = Some (Inr r', s3) \<and> isDuplicate r'"
    by blast
  from a b show ?thesis by blast
qed

theorem duplicate_after_restart_witness:
  "(\<exists>s3. checkAndRecordDedup ''a'' ''b'' meta0 ROUTING_DEDUP_TTL_MS 2000 ''01''
            (restart ((state_of postgres [] [])
               \<lparr> inMemoryCache := [(key0, 0)], message_dedup := [record0 0 ROUTING_DEDUP_TTL_MS] \<rparr>)) =
          Some (Inr db_conflict, s3)) \<and>
   (\<exists>s2 r' s3. run_ops [Prune 1000, LoadGuard ROUTING_DEDUP_TTL_MS 1000]
                  (restart ((state_of postgres [] [])
                     \<lparr> inMemoryCache := [(key0, 0)], message_dedup := [record0 0 ROUTING_DEDUP_TTL_MS] \<rparr>)) =
                Some s2 \<and>
      checkAndRecordDedup ''a'' ''b'' meta0 ROUTING_DEDUP_TTL_MS 2000 ''01'' s2 = Some (Inr r', s3) \<and>
      isDuplicate r')"
  by (rule duplicate_after_restart [OF _ _ _ first_call_example])
     (simp_all add: state_of_def run_defs not_duplicate_def ROUTING_DEDUP_TTL_MS_def meta0_def
        insert_of_def pg_accepts_def pg_text_def pg_null_or_text_def pg_timestamptz_def
        pg_index_entry_def)

subsection \<open>The capacity of the cache\<close>

text \<open>Decimal texts of different numbers differ, so the messages of a burst differ.\<close>

lemma read_show_nat: "read_nat (show_nat n) = n"
proof (induction n rule: show_nat.induct)
  case (1 n)
  show ?case
  proof (cases "n < 10")
    case True
    then show ?thesis
      by (subst show_nat.simps) (simp add: read_nat_def digit_char_def)
  next
    case False
    have d: "of_char (digit_char (n mod 10)) - 48 = n mod 10"
      by (simp add: digit_char_def)
    have "read_nat (show_nat n) = read_nat (show_nat (n div 10) @ [digit_char (n mod 10)])"
      using False by (subst show_nat.simps) simp
    also have "\<dots> = read_nat (show_nat (n div 10)) * 10 + n mod 10"
      using d by (simp add: read_nat_def)
    also have "\<dots> = n" using "1.IH" [OF False] by simp
    finally show ?thesis .
  qed
qed

lemma show_nat_inj: "show_nat i = show_nat j \<Longrightarrow> i = j"
  by (metis read_show_nat)

lemma nth_key_inj:
  "buildDedupKey ''a'' ''b'' (nth_meta i) = buildDedupKey ''a'' ''b'' (nth_meta j) \<Longrightarrow> i = j"
  by (simp add: buildDedupKey_def nth_meta_def show_nat_inj)

lemma nth_meta_fields:
  "eventHash (nth_meta i) = ''h'' @ show_nat i" "taskId (nth_meta i) = None" "seq (nth_meta i) = None"
  by (simp_all add: nth_meta_def)

lemma Map_set_absent: "Map_get m key = None \<Longrightarrow> Map_set key v m = m @ [(key, v)]"
  by (induction m) (auto split: if_splits)

lemma run_ops_append:
  "run_ops (xs @ ys) s = (case run_ops xs s of None \<Rightarrow> None | Some s' \<Rightarrow> run_ops ys s')"
  by (induction xs arbitrary: s) (auto split: option.splits)

text \<open>A decimal text has digits only, one for each power of ten.\<close>

lemma digit_char_code: "d < 10 \<Longrightarrow> of_char (digit_char d) = 48 + d"
  by (simp add: digit_char_def)

lemma digit_char_not_NUL: "d < 10 \<Longrightarrow> digit_char d \<noteq> CHR 0x00"
  using digit_char_code [of d] by (auto dest: arg_cong [where f = "of_char :: char \<Rightarrow> nat"])

lemma show_nat_pg_text: "pg_text (show_nat n)"
proof (induction n rule: show_nat.induct)
  case (1 n)
  show ?case
  proof (cases "n < 10")
    case True
    then show ?thesis
      using digit_char_not_NUL [of n] by (subst show_nat.simps) (simp add: pg_text_def)
  next
    case False
    with "1.IH" digit_char_not_NUL [of "n mod 10"] show ?thesis
      by (subst show_nat.simps) (simp add: pg_text_def)
  qed
qed

lemma show_nat_length: "n < 10 ^ k \<Longrightarrow> 0 < k \<Longrightarrow> length (show_nat n) \<le> k"
proof (induction k arbitrary: n)
  case 0
  then show ?case by simp
next
  case (Suc k)
  show ?case
  proof (cases "n < 10")
    case True
    then show ?thesis by (subst show_nat.simps) simp
  next
    case False
    then have k: "0 < k" using Suc.prems(1) by (cases k) simp_all
    from Suc.prems(1) have "n div 10 < 10 ^ k" by (simp add: less_mult_imp_div_less mult.commute)
    from Suc.IH [OF this k] False show ?thesis by (subst show_nat.simps) simp
  qed
qed

text \<open>
  Message \<open>n\<close> of a burst, for \<open>n\<close> up to the bound: nothing is swept (all entries are of
  this instant), nothing is evicted (the cache holds \<open>n\<close> entries when \<open>evictExpired\<close>
  runs), the store takes the statement, the message is new to both tiers, and its entry
  is added after the eviction.
\<close>

lemma burst_accepted:
  assumes "n \<le> ROUTING_DEDUP_MAX_KEYS" and "pg_timestamptz e"
  shows "pg_accepts (insert_of (show_nat n) ''a'' ''b'' (nth_meta n) e)"
proof -
  from assms(1) have "n < 10 ^ 5" by (simp add: ROUTING_DEDUP_MAX_KEYS_def)
  then have "length (show_nat n) \<le> 5" by (rule show_nat_length) simp
  with assms(2) show ?thesis
    using show_nat_pg_text [of n]
    by (simp add: pg_accepts_def insert_of_fields nth_meta_fields pg_text_def
          pg_null_or_text_def pg_index_entry_def)
qed

lemma burst_check:
  assumes "n \<le> ROUTING_DEDUP_MAX_KEYS" and "pg_timestamptz (nowMs + ROUTING_DEDUP_TTL_MS)"
  shows "checkAndRecordDedup ''a'' ''b'' (nth_meta n) ROUTING_DEDUP_TTL_MS nowMs (show_nat n)
           (after_burst nowMs n) =
         Some (Inr not_duplicate, after_burst nowMs (Suc n))"
proof -
  let ?key = "\<lambda>i. buildDedupKey ''a'' ''b'' (nth_meta i)"
  let ?m = "map (\<lambda>i. (?key i, nowMs)) [0..<n]"
  let ?tbl = "map (nth_row nowMs) [0..<n]"
  have cache: "inMemoryCache (after_burst nowMs n) = ?m"
    and tbl: "message_dedup (after_burst nowMs n) = ?tbl"
    and db: "db_adapter (after_burst nowMs n) = Some postgres"
    by (simp_all add: after_burst_def state_of_def)
  have "sweep_expired nowMs ?m = ?m"
    by (simp add: sweep_expired_filter ROUTING_DEDUP_TTL_MS_def)
  then have ev: "evictExpired nowMs ?m = Some ?m"
    using assms(1) by (simp add: evictExpired_def evict_oldest_short)
  have absent: "Map_get ?m (?key n) = None"
    by (auto simp: Map_get_None_iff dest: nth_key_inj)
  have no_route: "\<not> list_ex (same_route ''a'' ''b'' (''h'' @ show_nat n)) ?tbl"
    by (auto simp: list_ex_iff same_route_def nth_row_def dest: show_nat_inj)
  have no_id: "\<not> list_ex (\<lambda>r. row_id r = ''dedup_'' @ show_nat n) ?tbl"
    by (auto simp: list_ex_iff nth_row_def dest: show_nat_inj)
  have L2: "checkAndRecord_L2 ''a'' ''b'' (nth_meta n) ROUTING_DEDUP_TTL_MS nowMs (show_nat n) (?key n)
              ((after_burst nowMs n)\<lparr>inMemoryCache := ?m\<rparr>) =
            (Inr not_duplicate, after_burst nowMs (Suc n))"
    using burst_accepted [OF assms] pg_timestamptz_valid [OF assms(2)] no_route no_id
    by (simp add: checkAndRecord_L2_def getDb_def toISOString_def postgres_def pg_insert_def
          after_burst_def state_of_def nth_meta_fields nth_row_def insert_of_fields
          Map_set_absent [OF absent])
  show ?thesis
    using ev absent L2 by (simp add: checkAndRecordDedup_def cache Let_def)
qed

lemma burst_run:
  assumes "pg_timestamptz (nowMs + ROUTING_DEDUP_TTL_MS)"
  shows "n \<le> Suc ROUTING_DEDUP_MAX_KEYS \<Longrightarrow>
         run_ops (burst nowMs n) (after_burst nowMs 0) = Some (after_burst nowMs n)"
proof (induction n)
  case 0
  show ?case by (simp add: burst_def)
next
  case (Suc n)
  then have n: "n \<le> ROUTING_DEDUP_MAX_KEYS" and IH: "run_ops (burst nowMs n) (after_burst nowMs 0) = Some (after_burst nowMs n)"
    by simp_all
  have "burst nowMs (Suc n) = burst nowMs n @ [nth_check nowMs n]"
    by (simp add: burst_def)
  then show ?case
    using IH burst_check [OF n assms] by (simp add: run_ops_append nth_check_def)
qed

lemma length_after_burst: "length (inMemoryCache (after_burst nowMs n)) = n"
  by (simp add: after_burst_def state_of_def)

lemma after_burst_0: "after_burst nowMs 0 = state_of postgres [] []"
  by (simp add: after_burst_def)

text \<open>
  Claim C9 after 10,001 different messages.  From the empty state, with PostgreSQL as
  the store, a burst of \<open>ROUTING_DEDUP_MAX_KEYS + 1\<close> checks of different messages at one
  instant returns, and every check has completed; the cache then holds
  \<open>ROUTING_DEDUP_MAX_KEYS + 1\<close> entries, one more than the bound: \<open>evictExpired\<close> runs
  before the entry of the call is set, and nothing runs after.
\<close>

theorem burst_overfills_cache:
  "run_ops (burst 0 (Suc ROUTING_DEDUP_MAX_KEYS)) (state_of postgres [] []) =
     Some (after_burst 0 (Suc ROUTING_DEDUP_MAX_KEYS)) \<and>
   length (inMemoryCache (after_burst 0 (Suc ROUTING_DEDUP_MAX_KEYS))) = Suc ROUTING_DEDUP_MAX_KEYS"
proof -
  have v: "pg_timestamptz (0 + ROUTING_DEDUP_TTL_MS)"
    by (simp add: pg_timestamptz_def ROUTING_DEDUP_TTL_MS_def)
  have "run_ops (burst 0 (Suc ROUTING_DEDUP_MAX_KEYS)) (after_burst 0 0) =
          Some (after_burst 0 (Suc ROUTING_DEDUP_MAX_KEYS))"
    by (rule burst_run [OF v order_refl])
  then show ?thesis
    unfolding after_burst_0 length_after_burst by (rule conjI [OF _ refl])
qed

section \<open>computeMessageHash\<close>

text \<open>
  White space at the right end, and what \<open>collapse_ws\<close> does to a prefix without white
  space, to white space only, and to a string with some other code unit.
\<close>

lemma space_is_ws: "isWhiteSpace 0x20"
  by (simp add: isWhiteSpace_def)

lemma trim_rtrim: "trim s = rtrim (dropWhile isWhiteSpace s)"
  by (simp add: trim_def rtrim_def)

lemma rtrim_all_ws: "\<forall>x\<in>set b. isWhiteSpace x \<Longrightarrow> rtrim b = []"
  by (simp add: rtrim_def)

lemma rtrim_append: "\<exists>x\<in>set b. \<not> isWhiteSpace x \<Longrightarrow> rtrim (a @ b) = a @ rtrim b"
  by (auto simp: rtrim_def dropWhile_append)

lemma rtrim_append_ws: "\<forall>x\<in>set b. isWhiteSpace x \<Longrightarrow> rtrim (a @ b) = rtrim a"
  by (simp add: rtrim_def dropWhile_append)

lemma rtrim_nonws_last: "\<not> isWhiteSpace c \<Longrightarrow> rtrim (a @ [c]) = a @ [c]"
  by (simp add: rtrim_def)

lemma collapse_nonws_prefix:
  "\<forall>x\<in>set p. \<not> isWhiteSpace x \<Longrightarrow> collapse_ws (p @ r) = p @ collapse_ws r"
  by (induction p) auto

lemma collapse_all_ws:
  assumes "\<forall>x\<in>set s. isWhiteSpace x"
  shows "\<forall>x\<in>set (collapse_ws s). isWhiteSpace x"
proof (cases s)
  case Nil
  then show ?thesis by simp
next
  case (Cons c cs)
  with assms have c: "isWhiteSpace c" and d: "dropWhile isWhiteSpace cs = []" by simp_all
  have "collapse_ws s = [0x20]"
    unfolding Cons using c by (simp add: d del: dropWhile_eq_Nil_conv)
  then show ?thesis by (simp add: space_is_ws)
qed

lemma in_dropWhile: "x \<in> set cs \<Longrightarrow> \<not> P x \<Longrightarrow> x \<in> set (dropWhile P cs)"
  by (induction cs) auto

lemma collapse_has_nonws:
  "\<exists>x\<in>set s. \<not> isWhiteSpace x \<Longrightarrow> \<exists>x\<in>set (collapse_ws s). \<not> isWhiteSpace x"
proof (induction s rule: collapse_ws.induct)
  case 1
  then show ?case by simp
next
  case (2 c cs)
  show ?case
  proof (cases "isWhiteSpace c")
    case True
    with "2.prems" obtain x where x: "x \<in> set cs" "\<not> isWhiteSpace x" by auto
    then have "x \<in> set (dropWhile isWhiteSpace cs)"
      by (rule in_dropWhile)
    with x "2.IH"(1) [OF True] True show ?thesis by auto
  next
    case False
    then show ?thesis by auto
  qed
qed

lemma collapse_nonws_head: "\<not> isWhiteSpace c \<Longrightarrow> dropWhile isWhiteSpace (collapse_ws (c # cs)) = collapse_ws (c # cs)"
  by simp

lemma dropWhile_head: "dropWhile P s = c # cs \<Longrightarrow> \<not> P c"
  using hd_dropWhile [of P s] by auto

lemma ltrim_collapse: "dropWhile isWhiteSpace (collapse_ws s) = collapse_ws (dropWhile isWhiteSpace s)"
proof (cases s)
  case Nil
  then show ?thesis by simp
next
  case (Cons a as)
  show ?thesis
  proof (cases "isWhiteSpace a")
    case False
    with Cons show ?thesis by simp
  next
    case True
    have "dropWhile isWhiteSpace (collapse_ws (dropWhile isWhiteSpace as)) =
          collapse_ws (dropWhile isWhiteSpace as)"
    proof (cases "dropWhile isWhiteSpace as")
      case Nil
      then show ?thesis by (simp del: dropWhile_eq_Nil_conv)
    next
      case (Cons c cs)
      then have "\<not> isWhiteSpace c" by (rule dropWhile_head)
      then show ?thesis unfolding Cons by (rule collapse_nonws_head)
    qed
    with True Cons show ?thesis by (simp add: space_is_ws)
  qed
qed

text \<open>The normalized content is the words of the content joined by single spaces.\<close>

lemma normalized_words:
  "rtrim (collapse_ws (dropWhile isWhiteSpace s)) = join_space (ws_tokens s)"
proof (induction s rule: ws_tokens.induct)
  case (1 s)
  show ?case
  proof (cases "dropWhile isWhiteSpace s")
    case Nil
    then show ?thesis by (simp add: ws_tokens.simps [of s] rtrim_def del: dropWhile_eq_Nil_conv)
  next
    case (Cons c cs)
    let ?t = "c # takeWhile (\<lambda>x. \<not> isWhiteSpace x) cs"
    let ?rest = "dropWhile (\<lambda>x. \<not> isWhiteSpace x) cs"
    let ?rest' = "dropWhile isWhiteSpace ?rest"
    have c: "\<not> isWhiteSpace c" using Cons by (rule dropWhile_head)
    have t: "\<forall>x\<in>set ?t. \<not> isWhiteSpace x" using c by (auto dest: set_takeWhileD)
    have split: "c # cs = ?t @ ?rest" by simp
    have tok: "ws_tokens s = ?t # ws_tokens ?rest"
      by (simp add: ws_tokens.simps [of s] Cons)
    have IH: "rtrim (collapse_ws ?rest') = join_space (ws_tokens ?rest)"
      using "1.IH" [OF Cons] .
    have col: "collapse_ws (c # cs) = ?t @ collapse_ws ?rest"
      unfolding split [symmetric] collapse_nonws_prefix [OF t, symmetric] ..
    have rt: "rtrim ?t = ?t"
    proof -
      have ne: "?t \<noteq> []" by simp
      have "\<not> isWhiteSpace (last ?t)" using t last_in_set [OF ne] by blast
      then have "rtrim (butlast ?t @ [last ?t]) = butlast ?t @ [last ?t]"
        by (rule rtrim_nonws_last)
      then show ?thesis unfolding append_butlast_last_id [OF ne] .
    qed
    show ?thesis
    proof (cases "?rest' = []")
      case True
      then have all: "\<forall>x\<in>set ?rest. isWhiteSpace x"
        by (rule dropWhile_eq_Nil_conv [THEN iffD1])
      have "rtrim (collapse_ws (c # cs)) = ?t"
        unfolding col using rtrim_append_ws [OF collapse_all_ws [OF all], of ?t] rt by simp
      moreover have "ws_tokens ?rest = []"
        using True by (simp add: ws_tokens.simps [of ?rest] del: dropWhile_eq_Nil_conv)
      ultimately show ?thesis by (simp add: Cons tok)
    next
      case False
      then obtain d ds where rest': "?rest' = d # ds" by (cases ?rest') auto
      then have "\<not> isWhiteSpace d" by (rule dropWhile_head)
      then have nonws: "\<exists>x\<in>set ?rest'. \<not> isWhiteSpace x" using rest' by auto
      have "?rest \<noteq> []"
      proof
        assume "?rest = []"
        then have "?rest' = []" by (simp only: dropWhile.simps)
        with False show False ..
      qed
      then obtain w r where rest: "?rest = w # r" by (cases ?rest) auto
      then have w: "isWhiteSpace w" using dropWhile_head [of "\<lambda>x. \<not> isWhiteSpace x" cs w r] by simp
      have "?rest' = dropWhile isWhiteSpace r" using rest w by simp
      then have colr: "collapse_ws ?rest = 0x20 # collapse_ws ?rest'"
        using rest w by simp
      have "rtrim (collapse_ws (c # cs)) = (?t @ [0x20]) @ rtrim (collapse_ws ?rest')"
        unfolding col colr
        using rtrim_append [OF collapse_has_nonws [OF nonws], of "?t @ [0x20]"] by simp
      also have "\<dots> = ?t @ 0x20 # join_space (ws_tokens ?rest)" using IH by simp
      finally have a: "rtrim (collapse_ws (c # cs)) = ?t @ 0x20 # join_space (ws_tokens ?rest)" .
      have "ws_tokens ?rest \<noteq> []"
        by (simp add: ws_tokens.simps [of ?rest] rest')
      then obtain u us where "ws_tokens ?rest = u # us" by (cases "ws_tokens ?rest") auto
      then have "join_space (?t # ws_tokens ?rest) = ?t @ 0x20 # join_space (ws_tokens ?rest)"
        by simp
      with a show ?thesis by (simp add: Cons tok)
    qed
  qed
qed

lemma trim_collapse_words: "trim (collapse_ws s) = join_space (ws_tokens s)"
  by (simp add: trim_rtrim ltrim_collapse normalized_words)

lemma some_row_matches_iff:
  "some_row_matches digest toAgentId h rows \<longleftrightarrow>
   (\<exists>row\<in>set rows. computeMessageHash digest toAgentId row = h)"
  by (induction rows) auto

lemma words_hello:
  "ws_tokens (js ''  hello   world '') = ws_tokens (js ''hello world'')"
  by code_simp

lemma words_hello_3: "ws_tokens (js ''hello   world'') = ws_tokens (js ''hello world'')"
  by code_simp

text \<open>Two digests, as \<open>sha256sum\<close> prints them.\<close>

lemma sha256_hello_world:
  "sha256_hex ''hello world'' = ''b94d27b9934d3e08a52e52d7da7dabfac484efe37a5380ee9088f7ace2efcde9''"
  by code_simp

lemma sha256_hello_3_world:
  "sha256_hex ''hello   world'' = ''f06343efbbc9bcac096b71e819118b94deb6f1d8d351ce75ddac0c7d2d86ca18''"
  by code_simp

text \<open>
  Claim C6 as stated fails for \<open>hashContent\<close>, the content hash of
  persistent-dedup.ts: the contents "hello   world" and "hello world" have the same
  words, \<open>hashContent\<close> gives them different hashes, and after the delivery of the one
  \<open>checkAndRecordDedup\<close> with the hash of the other returns non-duplicate.
\<close>

theorem hashContent_keeps_whitespace:
  "ws_tokens (js ''hello   world'') = ws_tokens (js ''hello world'') \<and>
   hashContent sha256_hex ''hello world'' = ''b94d27b9934d3e08a52e52d7da7dabfa'' \<and>
   hashContent sha256_hex ''hello   world'' = ''f06343efbbc9bcac096b71e819118b94'' \<and>
   hashContent sha256_hex ''hello   world'' \<noteq> hashContent sha256_hex ''hello world'' \<and>
   map_option fst
     (case step (Check ''a'' ''b'' (content_meta ''hello world'') ROUTING_DEDUP_TTL_MS 0 ''00'')
             (state_of postgres [] []) of
        None \<Rightarrow> None
      | Some s1 \<Rightarrow>
          checkAndRecordDedup ''a'' ''b'' (content_meta ''hello   world'') ROUTING_DEDUP_TTL_MS 1000
            ''01'' s1) =
   Some (Inr not_duplicate)"
proof -
  have h1: "hashContent sha256_hex ''hello world'' = ''b94d27b9934d3e08a52e52d7da7dabfa''"
    by (simp add: hashContent_def sha256_hello_world)
  have h2: "hashContent sha256_hex ''hello   world'' = ''f06343efbbc9bcac096b71e819118b94''"
    by (simp add: hashContent_def sha256_hello_3_world)
  have run: "map_option fst
     (case step (Check ''a'' ''b'' (content_meta ''hello world'') ROUTING_DEDUP_TTL_MS 0 ''00'')
             (state_of postgres [] []) of
        None \<Rightarrow> None
      | Some s1 \<Rightarrow>
          checkAndRecordDedup ''a'' ''b'' (content_meta ''hello   world'') ROUTING_DEDUP_TTL_MS 1000
            ''01'' s1) =
   Some (Inr not_duplicate)"
    by (simp add: content_meta_def h1 h2 eval_defs Let_def)
  from words_hello_3 h1 h2 run show ?thesis by simp
qed

text \<open>
  Claim C6, amended.  For every two contents with the same words, that is, contents
  that differ only in runs of white space and in leading and trailing white space,
  \<open>computeMessageHash\<close> (message-dedup.ts) gives the same fingerprint for one
  recipient, whatever the digest; so \<open>isDuplicateMessage\<close> returns true for the second
  when the first is among the rows the query returns.
\<close>

theorem message_hash_ignores_whitespace:
  assumes "ws_tokens c1 = ws_tokens c2"
  shows "computeMessageHash digest toAgentId c1 = computeMessageHash digest toAgentId c2 \<and>
         (\<forall>db since rows.
            toISOString (nowMs - DEDUP_TTL_MS) = Inr since \<and> db toAgentId since = Inr rows \<and>
            c1 \<in> set rows \<longrightarrow>
            isDuplicateMessage digest (Inr db) nowMs toAgentId c2 = (True, []))"
proof -
  have eq: "computeMessageHash digest toAgentId c1 = computeMessageHash digest toAgentId c2"
    using assms by (simp add: computeMessageHash_def trim_collapse_words)
  have "isDuplicateMessage digest (Inr db) nowMs toAgentId c2 = (True, [])"
    if "toISOString (nowMs - DEDUP_TTL_MS) = Inr since" "db toAgentId since = Inr rows" "c1 \<in> set rows"
    for db since rows
    using that eq by (auto simp: isDuplicateMessage_def some_row_matches_iff)
  with eq show ?thesis by blast
qed

theorem message_hash_ignores_whitespace_witness:
  "computeMessageHash ascii_sha256 (js ''b'') (js ''  hello   world '') =
     computeMessageHash ascii_sha256 (js ''b'') (js ''hello world'') \<and>
   isDuplicateMessage ascii_sha256 (Inr (\<lambda>toAgentId since. Inr [js ''hi'', js ''  hello   world '']))
     0 (js ''b'') (js ''hello world'') = (True, [])"
proof -
  note T = message_hash_ignores_whitespace [OF words_hello, of ascii_sha256 "js ''b''" 0]
  have "isDuplicateMessage ascii_sha256
      (Inr (\<lambda>toAgentId since. Inr [js ''hi'', js ''  hello   world ''])) 0 (js ''b'') (js ''hello world'') =
      (True, [])"
    by (rule T [THEN conjunct2, rule_format,
          where db = "\<lambda>toAgentId since. Inr [js ''hi'', js ''  hello   world '']"
            and since = "- DEDUP_TTL_MS" and rows = "[js ''hi'', js ''  hello   world '']"])
       (simp add: toISOString_def valid_time_def DEDUP_TTL_MS_def)
  with T show ?thesis by blast
qed

section \<open>Two calls at once\<close>

text \<open>
  The three pieces of a call, run one after the other on one state, are
  \<open>checkAndRecordDedup\<close>.
\<close>

lemma check_split:
  "checkAndRecordDedup f t meta ttlMs nowMs rnd s =
     (case before_await f t meta ttlMs nowMs rnd s of
        None \<Rightarrow> None
      | Some (Inr r, s1) \<Rightarrow> Some (r, s1)
      | Some (Inl (db, p), s1) \<Rightarrow>
          (case store_executes db p nowMs (message_dedup s1) of
             (answer, tbl) \<Rightarrow>
               (case after_await (buildDedupKey f t meta) nowMs answer s1 of
                  (r, s2) \<Rightarrow> Some (r, s2\<lparr>message_dedup := tbl\<rparr>))))"
  by (auto simp: checkAndRecordDedup_def checkAndRecord_L2_def before_await_def store_executes_def
        after_await_def Let_def getDb_def
        split: option.splits sum.splits prod.splits)

text \<open>
  The invariant of a race, seen from either caller.  A caller has won when the store
  returned its row, and lost when the store returned none or the cache had the key.
  The table holds the record exactly when one caller has won, both never win, a caller
  that lost has the other as winner, and a cache holds the key only after a call of its
  process returned.
\<close>

lemma other_neq [simp]: "other c \<noteq> c" "c \<noteq> other c"
  by (cases c; simp)+

lemma other_other [simp]: "other (other c) = c"
  by (cases c) simp_all

lemma race_inv_at:
  "race_inv i cfg \<longleftrightarrow>
     caller_ok i cfg c \<and> caller_ok i cfg (other c) \<and>
     (has_record (ri_from i) (ri_to i) (eventHash (ri_meta i)) (store cfg) \<longleftrightarrow>
        won (phase cfg c) \<or> won (phase cfg (other c))) \<and>
     \<not> (won (phase cfg c) \<and> won (phase cfg (other c)))"
  by (cases c) (auto simp: race_inv_def)

lemma Map_get_subset:
  "set m \<subseteq> set m0 \<Longrightarrow> Map_get m key \<noteq> None \<Longrightarrow> Map_get m0 key \<noteq> None"
  by (auto simp: Map_get_None_iff)

lemma before_await_ok:
  assumes "keys_nonempty (inMemoryCache s)" and "db_adapter s = Some postgres"
    and "pg_accepts (insert_of rnd f t meta (nowMs + ttlMs))"
  shows "\<exists>m X. before_await f t meta ttlMs nowMs rnd s = Some (X, s\<lparr>inMemoryCache := m\<rparr>) \<and>
           set m \<subseteq> set (inMemoryCache s) \<and> keys_nonempty m \<and>
           ((\<exists>seenAt. X = Inr (Inr (l1_hit nowMs seenAt)) \<and>
                       Map_get m (buildDedupKey f t meta) \<noteq> None) \<or>
            X = Inl (postgres, insert_of rnd f t meta (nowMs + ttlMs)))"
proof -
  from evictExpired_returns [OF assms(1)] obtain m where
    m: "evictExpired nowMs (inMemoryCache s) = Some m" "set m \<subseteq> set (inMemoryCache s)"
       "keys_nonempty m"
    by blast
  show ?thesis
    using m assms(2) pg_accepts_expires [OF assms(3)]
    by (auto simp: before_await_def Let_def getDb_def intro!: exI [of _ m])
qed

lemma phase_cases:
  assumes "well_phased i c ph"
  obtains "ph = NotStarted"
  | "ph = Awaiting postgres
            (insert_of (ri_rnd i c) (ri_from i) (ri_to i) (ri_meta i) (ri_now i c + ri_ttl i))"
  | rows where "ph = Answered (Inr rows)"
  | r where "ph = Returned (Inr r)"
proof (cases ph)
  case NotStarted
  then show ?thesis by (rule that(1))
next
  case (Awaiting db p)
  with assms show ?thesis by (auto simp: well_phased_def intro: that(2))
next
  case (Answered a)
  with assms obtain rows where "a = Inr rows" by (cases a) (auto simp: well_phased_def)
  with Answered show ?thesis by (auto intro: that(3))
next
  case (Returned a)
  with assms obtain r where "a = Inr r" by (cases a) (auto simp: well_phased_def)
  with Returned show ?thesis by (auto intro: that(4))
qed

lemma rank_3: "rank ph = 3 \<longleftrightarrow> (\<exists>r. ph = Returned r)"
  by (cases ph) (simp_all add: rank_def)

lemma rank_le_3: "rank ph \<le> 3"
  by (cases ph) (simp_all add: rank_def)

text \<open>Every piece returns, keeps the invariant and moves its caller on.\<close>

lemma advance_start:
  assumes inv: "race_inv i cfg" and ph: "phase cfg c = NotStarted"
  shows "\<exists>cfg'. advance i c cfg = Some cfg' \<and> race_inv i cfg' \<and>
           phase cfg' (other c) = phase cfg (other c) \<and> rank (phase cfg' c) > 0"
proof -
  let ?s = "mem cfg (ri_home i c)"
  from inv have ok: "caller_ok i cfg c" and oko: "caller_ok i cfg (other c)"
    and rw: "has_record (ri_from i) (ri_to i) (eventHash (ri_meta i)) (store cfg) \<longleftrightarrow>
        won (phase cfg c) \<or> won (phase cfg (other c))"
    and nw: "\<not> (won (phase cfg c) \<and> won (phase cfg (other c)))"
    unfolding race_inv_at [of i cfg c] by blast+
  let ?p = "insert_of (ri_rnd i c) (ri_from i) (ri_to i) (ri_meta i) (ri_now i c + ri_ttl i)"
  from ok have "keys_nonempty (inMemoryCache ?s)" "db_adapter ?s = Some postgres"
    "pg_accepts ?p"
    by (simp_all add: caller_ok_def)
  from before_await_ok [OF this]
  obtain m X where
    run: "before_await (ri_from i) (ri_to i) (ri_meta i) (ri_ttl i) (ri_now i c) (ri_rnd i c) ?s =
            Some (X, ?s\<lparr>inMemoryCache := m\<rparr>)"
    and sub: "set m \<subseteq> set (inMemoryCache ?s)" and kn: "keys_nonempty m"
    and X: "(\<exists>seenAt. X = Inr (Inr (l1_hit (ri_now i c) seenAt)) \<and> Map_get m (ri_key i) \<noteq> None) \<or>
            X = Inl (postgres, ?p)"
    unfolding ri_key_def by blast
  note msub = Map_get_subset [OF sub]
  from X show ?thesis
  proof (elim disjE exE conjE)
    fix seenAt
    assume X1: "X = Inr (Inr (l1_hit (ri_now i c) seenAt))" and hit: "Map_get m (ri_key i) \<noteq> None"
    let ?cfg' = "cfg\<lparr> mem := (mem cfg)(ri_home i c := ?s\<lparr>inMemoryCache := m\<rparr>),
                      phase := (phase cfg)(c := Returned (Inr (l1_hit (ri_now i c) seenAt))) \<rparr>"
    have adv: "advance i c cfg = Some ?cfg'"
      using ph run X1 by (simp add: advance_def)
    from msub [OF hit] ok ph have same: "ri_home i (other c) = ri_home i c"
      and ro: "rank (phase cfg (other c)) = 3"
      by (auto simp: caller_ok_def rank_def)
    from oko have "well_phased i (other c) (phase cfg (other c))" by (simp add: caller_ok_def)
    then have "\<exists>r. phase cfg (other c) = Returned (Inr r)"
      using ro by (elim phase_cases) (simp_all add: rank_def)
    then obtain r where r: "phase cfg (other c) = Returned (Inr r)" ..
    have wo: "won (phase cfg (other c))"
    proof (rule ccontr)
      assume "\<not> won (phase cfg (other c))"
      with r have "lost (phase cfg (other c))" by (simp add: won_def lost_def)
      with oko have "won (phase cfg c)" by (simp add: caller_ok_def)
      with ph show False by (simp add: won_def)
    qed
    have "race_inv i ?cfg'"
      unfolding race_inv_at [of i ?cfg' c]
      using ok oko rw nw wo r same kn msub ph
      by (auto simp: caller_ok_def won_def lost_def rank_def well_phased_def l1_hit_def)
    with adv show ?thesis by (auto simp: rank_def)
  next
    assume X2: "X = Inl (postgres, ?p)"
    let ?cfg' = "cfg\<lparr> mem := (mem cfg)(ri_home i c := ?s\<lparr>inMemoryCache := m\<rparr>),
                      phase := (phase cfg)(c := Awaiting postgres ?p) \<rparr>"
    have adv: "advance i c cfg = Some ?cfg'"
      using ph run X2 by (simp add: advance_def)
    have "race_inv i ?cfg'"
      unfolding race_inv_at [of i ?cfg' c]
      using ok oko rw nw kn msub ph
      by (auto simp: caller_ok_def won_def lost_def rank_def well_phased_def)
    with adv show ?thesis by (auto simp: rank_def)
  qed
qed

lemma advance_query:
  assumes inv: "race_inv i cfg" and ph: "phase cfg c = Awaiting db p"
  shows "\<exists>cfg'. advance i c cfg = Some cfg' \<and> race_inv i cfg' \<and>
           phase cfg' (other c) = phase cfg (other c) \<and> rank (phase cfg' c) = 2"
proof -
  from inv have ok: "caller_ok i cfg c" and oko: "caller_ok i cfg (other c)"
    and rw: "has_record (ri_from i) (ri_to i) (eventHash (ri_meta i)) (store cfg) \<longleftrightarrow>
        won (phase cfg c) \<or> won (phase cfg (other c))"
    and nw: "\<not> (won (phase cfg c) \<and> won (phase cfg (other c)))"
    unfolding race_inv_at [of i cfg c] by blast+
  from ok ph have db: "db = postgres" and p: "p_from p = ri_from i" "p_to p = ri_to i"
    "p_hash p = eventHash (ri_meta i)" "p_id p = ''dedup_'' @ ri_rnd i c"
    and acc: "pg_accepts p"
    by (simp_all add: caller_ok_def well_phased_def insert_of_fields)
  from ok have ids: "\<forall>r\<in>set (store cfg). row_id r = ''dedup_'' @ ri_rnd i c \<longrightarrow>
      same_route (ri_from i) (ri_to i) (eventHash (ri_meta i)) r"
    by (simp add: caller_ok_def)
  show ?thesis
  proof (cases "has_record (ri_from i) (ri_to i) (eventHash (ri_meta i)) (store cfg)")
    case True
    let ?cfg' = "cfg\<lparr> store := store cfg, phase := (phase cfg)(c := Answered (Inr [])) \<rparr>"
    have adv: "advance i c cfg = Some ?cfg'"
      using ph db p acc True
      by (simp add: advance_def store_executes_def postgres_def pg_insert_def has_record_def)
    from True rw ph have wo: "won (phase cfg (other c))" by (simp add: won_def)
    have "race_inv i ?cfg'"
      unfolding race_inv_at [of i ?cfg' c]
      using ok oko rw nw wo ph True
      by (auto simp: caller_ok_def won_def lost_def rank_def well_phased_def)
    with adv show ?thesis by (auto simp: rank_def)
  next
    case False
    then have noid: "\<not> list_ex (\<lambda>r. row_id r = p_id p) (store cfg)"
      using ids p by (auto simp: has_record_def list_ex_iff)
    let ?row = "\<lparr> row_id = p_id p, from_agent_id = p_from p, to_agent_id = p_to p,
                   content_hash = p_hash p, task_id = p_task p, seq_col = p_seq p,
                   seen_at = ri_now i c, expires_at = p_expires p \<rparr>"
    let ?cfg' = "cfg\<lparr> store := store cfg @ [?row], phase := (phase cfg)(c := Answered (Inr [p_id p])) \<rparr>"
    have adv: "advance i c cfg = Some ?cfg'"
      using ph db p acc False noid
      by (simp add: advance_def store_executes_def postgres_def pg_insert_def has_record_def)
    from False rw have nwo: "\<not> won (phase cfg (other c))" by simp
    have nlo: "\<not> lost (phase cfg (other c))"
      using oko ph by (auto simp: caller_ok_def won_def)
    have route: "same_route (ri_from i) (ri_to i) (eventHash (ri_meta i)) ?row"
      using p by (simp add: same_route_def)
    have hr: "has_record (ri_from i) (ri_to i) (eventHash (ri_meta i)) (store cfg @ [?row])"
      using route by (simp add: has_record_def)
    have "race_inv i ?cfg'"
      unfolding race_inv_at [of i ?cfg' c]
      using ok oko nwo nlo route hr ph
      by (auto simp: caller_ok_def won_def lost_def rank_def well_phased_def)
    with adv show ?thesis by (auto simp: rank_def)
  qed
qed

lemma advance_resume:
  assumes inv: "race_inv i cfg" and ph: "phase cfg c = Answered a"
  shows "\<exists>cfg'. advance i c cfg = Some cfg' \<and> race_inv i cfg' \<and>
           phase cfg' (other c) = phase cfg (other c) \<and> rank (phase cfg' c) = 3"
proof -
  let ?s = "mem cfg (ri_home i c)"
  from inv have ok: "caller_ok i cfg c" and oko: "caller_ok i cfg (other c)"
    and rw: "has_record (ri_from i) (ri_to i) (eventHash (ri_meta i)) (store cfg) \<longleftrightarrow>
        won (phase cfg c) \<or> won (phase cfg (other c))"
    and nw: "\<not> (won (phase cfg c) \<and> won (phase cfg (other c)))"
    unfolding race_inv_at [of i cfg c] by blast+
  from ok ph obtain rows where a: "a = Inr rows"
    by (cases a) (auto simp: caller_ok_def well_phased_def)
  let ?r = "if length rows = 0 then db_conflict else not_duplicate"
  let ?s' = "?s\<lparr>inMemoryCache := Map_set (ri_key i) (ri_now i c) (inMemoryCache ?s)\<rparr>"
  let ?cfg' = "cfg\<lparr> mem := (mem cfg)(ri_home i c := ?s'), phase := (phase cfg)(c := Returned (Inr ?r)) \<rparr>"
  have adv: "advance i c cfg = Some ?cfg'"
    using ph a by (simp add: advance_def after_await_def)
  have kn: "keys_nonempty (inMemoryCache ?s')"
    using ok by (simp add: caller_ok_def keys_nonempty_Map_set ri_key_def buildDedupKey_nonempty)
  have "race_inv i ?cfg'"
    unfolding race_inv_at [of i ?cfg' c]
    using ok oko rw nw ph a kn
    by (auto simp: caller_ok_def won_def lost_def rank_def well_phased_def
          db_conflict_def not_duplicate_def)
  with adv show ?thesis by (auto simp: rank_def)
qed

lemma advance_done:
  assumes "phase cfg c = Returned r"
  shows "advance i c cfg = Some cfg"
  using assms by (simp add: advance_def)

lemma advance_inv:
  assumes inv: "race_inv i cfg"
  shows "\<exists>cfg'. advance i c cfg = Some cfg' \<and> race_inv i cfg' \<and>
           phase cfg' (other c) = phase cfg (other c) \<and>
           min 3 (Suc (rank (phase cfg c))) \<le> rank (phase cfg' c)"
proof (cases "phase cfg c")
  case NotStarted
  from advance_start [OF inv this] show ?thesis
    by (auto simp: NotStarted rank_def)
next
  case (Awaiting db p)
  from advance_query [OF inv this] show ?thesis
    by (auto simp: Awaiting rank_def)
next
  case (Answered a)
  from advance_resume [OF inv this] show ?thesis by auto
next
  case (Returned r)
  from advance_done [OF this, of i] inv show ?thesis
    by (auto simp: Returned rank_def)
qed

lemma run_schedule_inv:
  "race_inv i cfg \<Longrightarrow>
   \<exists>cfg'. run_schedule i sched cfg = Some cfg' \<and> race_inv i cfg' \<and>
          (\<forall>c. min 3 (rank (phase cfg c) + turns c sched) \<le> rank (phase cfg' c))"
proof (induction sched arbitrary: cfg)
  case Nil
  then show ?case by (simp add: turns_def)
next
  case (Cons x xs)
  from advance_inv [OF Cons.prems, of x] obtain cfg1 where
    a: "advance i x cfg = Some cfg1" and inv1: "race_inv i cfg1"
    and same: "phase cfg1 (other x) = phase cfg (other x)"
    and up: "min 3 (Suc (rank (phase cfg x))) \<le> rank (phase cfg1 x)"
    by blast
  from Cons.IH [OF inv1] obtain cfg' where
    r: "run_schedule i xs cfg1 = Some cfg'" and inv': "race_inv i cfg'"
    and ranks: "\<And>c. min 3 (rank (phase cfg1 c) + turns c xs) \<le> rank (phase cfg' c)"
    by blast
  have "min 3 (rank (phase cfg c) + turns c (x # xs)) \<le> rank (phase cfg' c)" for c
  proof (cases "c = x")
    case True
    with up ranks [of x] show ?thesis by (simp add: turns_def)
  next
    case False
    then have "c = other x" by (cases c; cases x) simp_all
    with same ranks [of c] False show ?thesis by (simp add: turns_def)
  qed
  with a r inv' show ?case by simp
qed

lemma race_start_inv: "race_start i cfg \<Longrightarrow> race_inv i cfg"
  by (auto simp: race_start_def race_inv_def caller_ok_def well_phased_def won_def lost_def
        rank_def id_taken_def has_record_def list_ex_iff)

text \<open>
  Claim C10.  Two calls of \<open>checkAndRecordDedup\<close> with the same inputs start while
  there is no record of the fingerprint (no cache entry, no row), in one process or in
  two, with PostgreSQL as the store; the store takes the statement of either call
  (texts without NUL that fit the index, an expiry in the years 1 to 9999) and their
  ids are not taken.  However the scheduler interleaves the pieces of the two calls
  and the two inserts at the store, once both calls have returned one has returned
  non-duplicate and the other duplicate: the store executes each conditional insert in
  one piece, so only the first one makes the row.
\<close>

theorem race_has_one_first_writer:
  assumes "race_start i cfg" and "3 \<le> turns CA sched" and "3 \<le> turns CB sched"
  shows "\<exists>cfg' rA rB. run_schedule i sched cfg = Some cfg' \<and>
           phase cfg' CA = Returned (Inr rA) \<and> phase cfg' CB = Returned (Inr rB) \<and>
           isDuplicate rA \<noteq> isDuplicate rB"
proof -
  from run_schedule_inv [OF race_start_inv [OF assms(1)], of sched] obtain cfg' where
    run: "run_schedule i sched cfg = Some cfg'" and inv: "race_inv i cfg'"
    and ranks: "\<And>c. min 3 (rank (phase cfg c) + turns c sched) \<le> rank (phase cfg' c)"
    by blast
  have fin: "rank (phase cfg' c) = 3" if "3 \<le> turns c sched" for c
    using ranks [of c] rank_le_3 [of "phase cfg' c"] that by simp
  from inv have wp: "well_phased i c (phase cfg' c)" for c
    by (cases c) (simp_all add: race_inv_def caller_ok_def)
  have ret: "\<exists>r. phase cfg' c = Returned (Inr r)" if "3 \<le> turns c sched" for c
    using wp [of c] fin [OF that] by (elim phase_cases) (simp_all add: rank_def)
  from ret [OF assms(2)] obtain rA where rA: "phase cfg' CA = Returned (Inr rA)" ..
  from ret [OF assms(3)] obtain rB where rB: "phase cfg' CB = Returned (Inr rB)" ..
  from inv rA rB have "isDuplicate rA \<noteq> isDuplicate rB"
    by (auto simp: race_inv_def caller_ok_def won_def lost_def)
  with run rA rB show ?thesis by blast
qed

theorem race_has_one_first_writer_witness:
  "\<exists>cfg' rA rB. run_schedule race_inputs0 [CA, CB, CB, CA, CB, CA] race0 = Some cfg' \<and>
     phase cfg' CA = Returned (Inr rA) \<and> phase cfg' CB = Returned (Inr rB) \<and>
     isDuplicate rA \<noteq> isDuplicate rB"
  by (rule race_has_one_first_writer)
     (simp_all add: race_start_def race_inputs0_def race0_def state_of_def keys_nonempty_def
        id_taken_def has_record_def ROUTING_DEDUP_TTL_MS_def turns_def meta0_def insert_of_def
        pg_accepts_def pg_text_def pg_null_or_text_def pg_timestamptz_def pg_index_entry_def)

end
